theory Spec2Isabelle
  imports Main "HOL-Library.Product_Lexorder"
begin

section \<open>Data model of the domino chain solver\<close>

text \<open>
  A fix is an oriented domino \<open>(a, b)\<close>; a piece is the key \<open>(x, y)\<close> of the domino it
  belongs to; a cell is a grid coordinate. Python's unbounded integers are \<open>int\<close>.
  A Python \<open>dict\<close> is an association list in insertion order, its keys distinct.
\<close>

type_synonym dfix = "int \<times> int"
type_synonym piece = "int \<times> int"
type_synonym cell = "int \<times> int"

datatype py_error = KeyError | IndexError | ValueError

section \<open>Chain reconstruction (\<open>SolutionManager.on_solution_callback\<close>, domino\_cf.py)\<close>

text \<open>
  The loop of lines 168--172:
  \<^verbatim>\<open>
    arc = used[0]
    while arc:
        used.remove(arc)
        result.append(arc[0])
        arc = next((link for link in used if link[0] == arc[1]), None)
  \<close>
  \<open>used.remove(arc)\<close> deletes the first occurrence and raises \<open>ValueError\<close> when there is
  none; \<open>next(..., None)\<close> is the first link whose head is the tail of the current arc.
  The state of the loop is the current arc, the remaining list and the result so far.
\<close>

function chain_loop ::
  "'n \<times> 'n \<Rightarrow> ('n \<times> 'n) list \<Rightarrow> 'n list \<Rightarrow> py_error + ('n list \<times> ('n \<times> 'n) list)" where
  "chain_loop arc used result =
     (if arc \<in> set used
      then (case find (\<lambda>link. fst link = snd arc) (remove1 arc used) of
              None \<Rightarrow> Inr (result @ [fst arc], remove1 arc used)
            | Some nxt \<Rightarrow> chain_loop nxt (remove1 arc used) (result @ [fst arc]))
      else Inl ValueError)"
  by pat_completeness auto
termination
  by (relation "measure (\<lambda>(arc, used, result). length used)")
     (auto simp: length_remove1 intro!: diff_less length_pos_if_in_set)

declare chain_loop.simps [simp del]

text \<open>\<open>arc = used[0]\<close> raises \<open>IndexError\<close> on the empty list.\<close>

definition follow_chain :: "('n \<times> 'n) list \<Rightarrow> py_error + ('n list \<times> ('n \<times> 'n) list)" where
  "follow_chain used = (case used of [] \<Rightarrow> Inl IndexError | arc # _ \<Rightarrow> chain_loop arc used [])"

text \<open>
  What lines 173--177 print: the line \<open>duplicates found!\<close> when the result has a repeated
  entry, then the result, to which \<open>['unused:', used]\<close> is appended when arcs are left.
\<close>

datatype 'n entry = Node 'n | Unused "('n \<times> 'n) list"

datatype 'n line = DuplicatesFound | Chain "'n entry list"

definition show_circuit :: "('n \<times> 'n) list \<Rightarrow> py_error + 'n line list" where
  "show_circuit used =
     (case follow_chain used of
        Inl e \<Rightarrow> Inl e
      | Inr (result, left) \<Rightarrow>
          Inr ((if length (remdups result) \<noteq> length result then [DuplicatesFound] else [])
               @ [Chain (map Node result @ (if left \<noteq> [] then [Unused left] else []))]))"

text \<open>
  What \<open>DominoBraneSolver.summarise\<close> prints for the solver's status: infeasibility and
  time-out are messages of their own, printed from the status alone.
\<close>

datatype status = OPTIMAL | FEASIBLE | INFEASIBLE | UNKNOWN

datatype report = Solved | Infeasible | OutOfTime

definition summarise :: "status \<Rightarrow> report \<times> bool" where
  "summarise st =
     (if st = OPTIMAL \<or> st = FEASIBLE then (Solved, True)
      else if st = INFEASIBLE then (Infeasible, False)
      else (OutOfTime, False))"

text \<open>
  A closed tour over the nodes \<open>ns\<close>: the arcs from each node to the next and from the
  last node back to the first. Used to state what a valid circuit gives the renderer.
\<close>

definition path_arcs :: "'n list \<Rightarrow> 'n \<Rightarrow> ('n \<times> 'n) list" where
  "path_arcs hs e = zip hs (tl hs @ [e])"

definition tour_arcs :: "'n list \<Rightarrow> ('n \<times> 'n) list" where
  "tour_arcs ns = zip ns (rotate1 ns)"

definition closed_tour :: "('n \<times> 'n) list \<Rightarrow> 'n list \<Rightarrow> bool" where
  "closed_tour used ns \<longleftrightarrow>
     ns \<noteq> [] \<and> distinct ns \<and> distinct used \<and> set used = set (tour_arcs ns)"

section \<open>The connectivity graph (\<open>DominoDigraph.__init__\<close>, domino\_cf.py)\<close>

text \<open>
  \<^verbatim>\<open>dominoes = set((x, y) for y in range(size+1) for x in range(y, size+1))\<close>
  A Python set has no specified order; the model lists the dominoes in the order the
  generator produces them. \<open>range(size+1)\<close> is empty for a negative size, as \<open>[0..sz]\<close> is.
\<close>

definition dominoes :: "int \<Rightarrow> piece list" where
  "dominoes sz = [(x, y). y \<leftarrow> [0..sz], x \<leftarrow> [y..sz]]"

text \<open>
  \<^verbatim>\<open>fixed = {(a, b): {(a, b), (b, a)} for (a, b) in dominoes}\<close>
  The set literal holds one element when \<open>a = b\<close> and two otherwise: \<open>remdups\<close> of the two
  written elements.
\<close>

definition fixed :: "int \<Rightarrow> (piece \<times> dfix list) list" where
  "fixed sz = map (\<lambda>(a, b). ((a, b), remdups [(a, b), (b, a)])) (dominoes sz)"

text \<open>
  The graph has three layers: the domino, its fixes, and for each fix the list of its
  potential tails. The dictionaries \<open>{'fixes': ...}\<close> and \<open>{'tails': ...}\<close> with their
  single key are left out. The other domino \<open>o\<close> of the source is written \<open>od\<close>.
  \<^verbatim>\<open>
    'tails': [o_fix for o, o_fixes in fixed.items() if o != d
                    for o_fix in o_fixes if o_fix[0] == d_fix[1]]
  \<close>
\<close>

type_synonym fixes_dict = "(dfix \<times> dfix list) list"
type_synonym graph = "(piece \<times> fixes_dict) list"

definition tails_of :: "(piece \<times> dfix list) list \<Rightarrow> piece \<Rightarrow> dfix \<Rightarrow> dfix list" where
  "tails_of fx d d_fix =
     [o_fix. (od, o_fixes) \<leftarrow> fx, od \<noteq> d, o_fix \<leftarrow> o_fixes, fst o_fix = snd d_fix]"

definition DominoDigraph :: "int \<Rightarrow> graph" where
  "DominoDigraph sz =
     map (\<lambda>(d, d_fixes). (d, map (\<lambda>d_fix. (d_fix, tails_of (fixed sz) d d_fix)) d_fixes))
         (fixed sz)"

section \<open>The constraint model handed to the solver\<close>

text \<open>
  \<open>model.NewBoolVar\<close> returns a fresh variable at every call. A variable is named here by
  the place of the call that creates it: \<open>Fix node\<close> is the value kept in \<open>self.fixes\<close>,
  \<open>Arc d h k\<close> the variable made for the \<open>k\<close>-th entry of the tails list of fix \<open>h\<close> of
  domino \<open>d\<close>, \<open>Loop d h\<close> the loop variable of that fix, and \<open>Place x y a b f\<close> the value
  of \<open>self.place[x, y, a, b, f]\<close>.
\<close>

datatype var = Fix dfix | Arc piece dfix nat | Loop piece dfix | Place int int int int int

datatype lit = Pos var | Neg var

text \<open>
  The calls on the model: \<open>AddImplication(a, b)\<close>; \<open>Add(sum(xs) == sum(ys) + c)\<close>;
  \<open>Add(sum(xs) == c).OnlyEnforceIf(...)\<close>; \<open>AddBoolOr(ls).OnlyEnforceIf(...)\<close> (every
  call of \<open>OnlyEnforceIf\<close> adds its literal to the enforcement literals);
  \<open>AddCircuit(arcs)\<close>.
\<close>

datatype constr =
    Implication lit lit
  | LinEq "var list" "var list" int
  | LinEqIf "var list" int "lit list"
  | BoolOr "lit list" "lit list"
  | Circuit "(nat \<times> nat \<times> var) list"

type_synonym space = "(cell \<times> int option) list"

subsection \<open>Dictionaries\<close>

text \<open>The keys of a dictionary filled in the order \<open>xs\<close>: each key at its first place.\<close>

primrec dict_keys :: "'k list \<Rightarrow> 'k list" where
  "dict_keys [] = []"
| "dict_keys (x # xs) = x # removeAll x (dict_keys xs)"

text \<open>\<open>d[k] = v\<close>: a present key keeps its place and takes the new value.\<close>

fun dict_set :: "('k \<times> 'v) list \<Rightarrow> 'k \<Rightarrow> 'v \<Rightarrow> ('k \<times> 'v) list" where
  "dict_set [] k v = [(k, v)]"
| "dict_set ((k', v') # kvs) k v =
     (if k' = k then (k, v) # kvs else (k', v') # dict_set kvs k v)"

definition dict_of :: "('k \<times> 'v) list \<Rightarrow> ('k \<times> 'v) list" where
  "dict_of kvs = foldl (\<lambda>d (k, v). dict_set d k v) [] kvs"

text \<open>
  \<open>idx = {k: i for i, k in enumerate(self.fixes)}\<close>: the position of a key. (For a key
  that is absent Python raises \<open>KeyError\<close>; \<open>set_circuit\<close> below returns that error
  before any such position is used.)
\<close>

definition idx :: "'k list \<Rightarrow> 'k \<Rightarrow> nat" where
  "idx ks k = length (takeWhile (\<lambda>x. x \<noteq> k) ks)"

subsection \<open>\<open>DominoBraneSolver.set_circuit\<close>\<close>

text \<open>
  \<^verbatim>\<open>self.fixes = {node: NewBoolVar(..) for dom, fixes in self.graph.items()
                                          for node in fixes['fixes']}\<close>
\<close>

definition fix_nodes :: "graph \<Rightarrow> dfix list" where
  "fix_nodes g = dict_keys [node. (dm, fixes) \<leftarrow> g, (node, tails) \<leftarrow> fixes]"

text \<open>
  The arcs made for one fix, in the order of its tails list, each with its tail, and
  the dictionary \<open>hd['tail_vars']\<close> that the loop fills with them.
\<close>

definition tail_arcs :: "piece \<Rightarrow> dfix \<Rightarrow> dfix list \<Rightarrow> (dfix \<times> var) list" where
  "tail_arcs d h tails = map (\<lambda>(k, t). (t, Arc d h k)) (enumerate 0 tails)"

definition tail_vars :: "piece \<Rightarrow> dfix \<Rightarrow> dfix list \<Rightarrow> (dfix \<times> var) list" where
  "tail_vars d h tails = dict_of (tail_arcs d h tails)"

definition d_arcs :: "dfix list \<Rightarrow> piece \<Rightarrow> fixes_dict \<Rightarrow> (nat \<times> nat \<times> var) list" where
  "d_arcs ks d fixes =
     [(idx ks h, idx ks t, arc). (h, tails) \<leftarrow> fixes, (t, arc) \<leftarrow> tail_arcs d h tails]"

definition d_loops :: "dfix list \<Rightarrow> piece \<Rightarrow> fixes_dict \<Rightarrow> (nat \<times> nat \<times> var) list" where
  "d_loops ks d fixes =
     [(idx ks h, idx ks h, Loop d h). (h, tails) \<leftarrow> fixes, 1 < length fixes]"

definition arc_implications :: "piece \<Rightarrow> fixes_dict \<Rightarrow> constr list" where
  "arc_implications d fixes =
     [c. (h, tails) \<leftarrow> fixes, (t, arc) \<leftarrow> tail_arcs d h tails,
         c \<leftarrow> [Implication (Pos arc) (Pos (Fix h)), Implication (Pos arc) (Pos (Fix t)),
               Implication (Neg (Fix h)) (Neg arc), Implication (Neg (Fix t)) (Neg arc)]]"

definition arcs_of :: "graph \<Rightarrow> (nat \<times> nat \<times> var) list" where
  "arcs_of g = concat (map (\<lambda>(d, fixes). d_arcs (fix_nodes g) d fixes) g)"

definition loops_of :: "graph \<Rightarrow> (nat \<times> nat \<times> var) list" where
  "loops_of g = concat (map (\<lambda>(d, fixes). d_loops (fix_nodes g) d fixes) g)"

definition circuit_constraints :: "graph \<Rightarrow> constr list" where
  "circuit_constraints g =
     concat (map (\<lambda>(d, fixes).
        arc_implications d fixes
        @ [LinEq (map (\<lambda>a. snd (snd a)) (d_arcs (fix_nodes g) d fixes)) [] 1]) g)
     @ [LinEq (map (\<lambda>a. snd (snd a)) (arcs_of g)) [] (int (length g)),
        Circuit (arcs_of g @ loops_of g)]"

text \<open>
  \<open>self.fixes[t]\<close> and \<open>idx[t]\<close> raise \<open>KeyError\<close> for a tail that is no fix of the graph.
\<close>

definition set_circuit :: "graph \<Rightarrow> py_error + constr list" where
  "set_circuit g =
     (if \<forall>(d, fixes) \<in> set g. \<forall>(h, tails) \<in> set fixes. \<forall>t \<in> set tails. t \<in> set (fix_nodes g)
      then Inr (circuit_constraints g) else Inl KeyError)"

subsection \<open>\<open>DominoBraneSolver.set_placements\<close>\<close>

text \<open>
  The keys of \<open>self.place\<close>: role \<open>1\<close> (the variable named \<open>H\<close>) is created at an open
  cell or at a cell labelled \<open>b\<close>, role \<open>0\<close> (named \<open>T\<close>) at an open cell or at a cell
  labelled \<open>a\<close>.
\<close>

definition place_keys :: "dfix list \<Rightarrow> space \<Rightarrow> (int \<times> int \<times> int \<times> int \<times> int) list" where
  "place_keys ks space =
     [k. (a, b) \<leftarrow> ks, ((x, y), lab) \<leftarrow> space,
         k \<leftarrow> (case lab of
                 None \<Rightarrow> [(x, y, a, b, 1), (x, y, a, b, 0)]
               | Some l \<Rightarrow> (if l = b then [(x, y, a, b, 1)] else [])
                          @ (if l = a then [(x, y, a, b, 0)] else []))]"

definition in_place :: "dfix list \<Rightarrow> space \<Rightarrow> int \<times> int \<times> int \<times> int \<times> int \<Rightarrow> bool" where
  "in_place ks space k \<longleftrightarrow> k \<in> set (place_keys ks space)"

text \<open>
  \<^verbatim>\<open>adj = [ij for ij in [(x - 1, y), (x + 1, y), (x, y - 1), (x, y + 1)] if ij in self.space]\<close>
\<close>

definition adj :: "space \<Rightarrow> int \<Rightarrow> int \<Rightarrow> cell list" where
  "adj space x y = [ij \<leftarrow> [(x - 1, y), (x + 1, y), (x, y - 1), (x, y + 1)]. ij \<in> fst ` set space]"

text \<open>The placement variables of one fix in one role, over the cells of the space.\<close>

definition fix_vars :: "dfix list \<Rightarrow> space \<Rightarrow> int \<Rightarrow> int \<Rightarrow> int \<Rightarrow> var list" where
  "fix_vars ks space a b f =
     [Place x y a b f. ((x, y), lab) \<leftarrow> space, in_place ks space (x, y, a, b, f)]"

definition fix_sums :: "dfix list \<Rightarrow> space \<Rightarrow> constr list" where
  "fix_sums ks space =
     [c. (a, b) \<leftarrow> ks,
         c \<leftarrow> [LinEq (fix_vars ks space a b 1) [Fix (a, b)] 0,
               LinEq (fix_vars ks space a b 0) [Fix (a, b)] 0]]"

text \<open>The placement variables at one cell, over the fixes and both roles.\<close>

definition cell_vars :: "dfix list \<Rightarrow> space \<Rightarrow> int \<Rightarrow> int \<Rightarrow> var list" where
  "cell_vars ks space x y =
     [Place x y a b f. (a, b) \<leftarrow> ks, f \<leftarrow> [0, 1], in_place ks space (x, y, a, b, f)]"

definition halves :: "dfix list \<Rightarrow> space \<Rightarrow> int \<Rightarrow> int \<Rightarrow> int \<Rightarrow> int \<Rightarrow> var list" where
  "halves ks space x y a b =
     [Place i j a b 0. (i, j) \<leftarrow> adj space x y, in_place ks space (i, j, a, b, 0)]"

definition cell_constraints :: "dfix list \<Rightarrow> space \<Rightarrow> constr list" where
  "cell_constraints ks space =
     [c. ((x, y), lab) \<leftarrow> space,
         c \<leftarrow> LinEq (cell_vars ks space x y) [] 1
             # [BoolOr (map Pos (halves ks space x y a b)) [Pos (Place x y a b 1)].
                  (a, b) \<leftarrow> ks, in_place ks space (x, y, a, b, 1)]]"

text \<open>
  \<open>Connect domino tails to their heads\<close>: for the head \<open>(a, b)\<close> of an arc kept in
  \<open>tail_vars\<close> and its tail \<open>(c, d)\<close>.
\<close>

definition glue_constraints :: "graph \<Rightarrow> space \<Rightarrow> constr list" where
  "glue_constraints g space =
     [BoolOr (map Pos (halves (fix_nodes g) space x y c d)) [Pos (Place x y a b 1), Pos arc].
        (dd, fixes) \<leftarrow> g, ((a, b), tails) \<leftarrow> fixes, ((c, d), arc) \<leftarrow> tail_vars dd (a, b) tails,
        ((x, y), lab) \<leftarrow> space, in_place (fix_nodes g) space (x, y, a, b, 1)]"

definition ambiguity_constraints :: "dfix list \<Rightarrow> space \<Rightarrow> constr list" where
  "ambiguity_constraints ks space =
     [LinEqIf [Place i j u v f. f \<leftarrow> [0, 1], (i, j) \<leftarrow> adj space x y, (u, v) \<leftarrow> ks,
                 u = b \<and> in_place ks space (i, j, u, v, f)]
              (if a = b then 2 else 1) [Pos (Place x y a b 1)].
        ((x, y), lab) \<leftarrow> space, (a, b) \<leftarrow> ks, in_place ks space (x, y, a, b, 1)]"

definition set_placements :: "graph \<Rightarrow> space \<Rightarrow> constr list" where
  "set_placements g space =
     LinEq (map Fix (fix_nodes g)) [] (int (length space) div 2)
     # fix_sums (fix_nodes g) space
     @ cell_constraints (fix_nodes g) space
     @ glue_constraints g space
     @ ambiguity_constraints (fix_nodes g) space"

text \<open>\<open>DominoBraneSolver.setup\<close>: the circuit first, then the placements.\<close>

definition solver_setup :: "graph \<Rightarrow> space \<Rightarrow> py_error + constr list" where
  "solver_setup g space =
     (case set_circuit g of
        Inl e \<Rightarrow> Inl e
      | Inr cs \<Rightarrow> Inr (cs @ set_placements g space))"

subsection \<open>Classes \<open>Space\<close> and the meaning of the constraints\<close>

text \<open>\<^verbatim>\<open>self.space = {(x, y): None for y in range(sy) for x in range(sx)}\<close>\<close>

definition grid :: "int \<Rightarrow> int \<Rightarrow> space" where
  "grid sx sy = [((x, y), None). y \<leftarrow> [0..sy - 1], x \<leftarrow> [0..sx - 1]]"

definition Space :: "int \<Rightarrow> space" where
  "Space sz = grid (sz + 1) (sz + 2)"

fun lit_val :: "(var \<Rightarrow> bool) \<Rightarrow> lit \<Rightarrow> bool" where
  "lit_val \<rho> (Pos v) = \<rho> v"
| "lit_val \<rho> (Neg v) = (\<not> \<rho> v)"

text \<open>The value of \<open>sum(vs)\<close> over Boolean variables.\<close>

definition vsum :: "(var \<Rightarrow> bool) \<Rightarrow> var list \<Rightarrow> int" where
  "vsum \<rho> vs = int (length (filter \<rho> vs))"

text \<open>
  Modelled from the spec: the circuit primitive of the external solver, which is not part
  of the repository. It takes triples \<open>(head, tail, literal)\<close>, self-loops included, and
  requires exactly one true outgoing and one true incoming arc at every node that has
  an arc, a true self-loop meaning that the node is left out of the tour; the true arcs
  that are no self-loops form one closed tour. \<open>walk\<close> follows the selected arcs from a
  node for a number of steps; the tour is single when the walk of as many steps as
  there are selected arcs never meets a node twice.
\<close>

definition circuit_nodes :: "(nat \<times> nat \<times> var) list \<Rightarrow> nat list" where
  "circuit_nodes arcs = remdups (map fst arcs @ map (\<lambda>a. fst (snd a)) arcs)"

definition out_true :: "(var \<Rightarrow> bool) \<Rightarrow> (nat \<times> nat \<times> var) list \<Rightarrow> nat \<Rightarrow> nat" where
  "out_true \<rho> arcs n = length [a \<leftarrow> arcs. fst a = n \<and> \<rho> (snd (snd a))]"

definition in_true :: "(var \<Rightarrow> bool) \<Rightarrow> (nat \<times> nat \<times> var) list \<Rightarrow> nat \<Rightarrow> nat" where
  "in_true \<rho> arcs n = length [a \<leftarrow> arcs. fst (snd a) = n \<and> \<rho> (snd (snd a))]"

definition selected :: "(var \<Rightarrow> bool) \<Rightarrow> (nat \<times> nat \<times> var) list \<Rightarrow> (nat \<times> nat) list" where
  "selected \<rho> arcs = [(h, t). (h, t, v) \<leftarrow> arcs, \<rho> v \<and> h \<noteq> t]"

fun walk :: "nat \<Rightarrow> (nat \<times> nat) list \<Rightarrow> nat \<Rightarrow> nat list" where
  "walk 0 sel n = []"
| "walk (Suc k) sel n =
     n # (case find (\<lambda>a. fst a = n) sel of None \<Rightarrow> [] | Some a \<Rightarrow> walk k sel (snd a))"

definition single_tour :: "(nat \<times> nat) list \<Rightarrow> bool" where
  "single_tour sel \<longleftrightarrow>
     (case sel of [] \<Rightarrow> True
      | a # _ \<Rightarrow> length (walk (length sel) sel (fst a)) = length sel
                \<and> distinct (walk (length sel) sel (fst a)))"

definition circuit_ok :: "(var \<Rightarrow> bool) \<Rightarrow> (nat \<times> nat \<times> var) list \<Rightarrow> bool" where
  "circuit_ok \<rho> arcs \<longleftrightarrow>
     (\<forall>n \<in> set (circuit_nodes arcs). out_true \<rho> arcs n = 1 \<and> in_true \<rho> arcs n = 1)
     \<and> single_tour (selected \<rho> arcs)"

text \<open>When an assignment of the Boolean variables satisfies a constraint, and a model.\<close>

fun holds :: "(var \<Rightarrow> bool) \<Rightarrow> constr \<Rightarrow> bool" where
  "holds \<rho> (Implication a b) = (lit_val \<rho> a \<longrightarrow> lit_val \<rho> b)"
| "holds \<rho> (LinEq xs ys c) = (vsum \<rho> xs = vsum \<rho> ys + c)"
| "holds \<rho> (LinEqIf xs c es) = ((\<forall>e \<in> set es. lit_val \<rho> e) \<longrightarrow> vsum \<rho> xs = c)"
| "holds \<rho> (BoolOr ls es) = ((\<forall>e \<in> set es. lit_val \<rho> e) \<longrightarrow> (\<exists>l \<in> set ls. lit_val \<rho> l))"
| "holds \<rho> (Circuit arcs) = circuit_ok \<rho> arcs"

definition sat :: "(var \<Rightarrow> bool) \<Rightarrow> constr list \<Rightarrow> bool" where
  "sat \<rho> cs \<longleftrightarrow> (\<forall>c \<in> set cs. holds \<rho> c)"

text \<open>
  An instance with a solution, used to show that the hypotheses of the theorems can be
  met: three dominoes with one fix each, chained \<open>[0:1] [1:2] [2:0]\<close>, on a grid of
  three by two open cells, laid clockwise from the cell \<open>(0, 0)\<close>.
\<close>

definition ring_graph :: graph where
  "ring_graph =
     [((1, 0), [((0, 1), [(1, 2)])]),
      ((2, 1), [((1, 2), [(2, 0)])]),
      ((2, 0), [((2, 0), [(0, 1)])])]"

definition ring_solution :: "var \<Rightarrow> bool" where
  "ring_solution v \<longleftrightarrow>
     v \<in> set [Fix (0, 1), Fix (1, 2), Fix (2, 0),
              Arc (1, 0) (0, 1) 0, Arc (2, 1) (1, 2) 0, Arc (2, 0) (2, 0) 0,
              Place 0 0 0 1 0, Place 1 0 0 1 1, Place 2 0 1 2 0,
              Place 2 1 1 2 1, Place 1 1 2 0 0, Place 0 1 2 0 1]"

subsection \<open>The self-loops of \<open>DiGraphSolver.setup\<close> (domino\_circuit.py)\<close>


text \<open>
  The same ring with both fixes of every domino in the graph, as \<open>DominoDigraph\<close> lists
  them for the dominoes \<open>[1:0]\<close>, \<open>[2:1]\<close> and \<open>[2:0]\<close>: the solution uses the fixes
  \<open>(0, 1)\<close>, \<open>(1, 2)\<close>, \<open>(2, 0)\<close> and takes the self-loop of each mirror fix.
\<close>

definition mirror_graph :: graph where
  "mirror_graph =
     [((1, 0), [((1, 0), [(0, 2)]), ((0, 1), [(1, 2)])]),
      ((2, 1), [((2, 1), [(1, 0)]), ((1, 2), [(2, 0)])]),
      ((2, 0), [((2, 0), [(0, 1)]), ((0, 2), [(2, 1)])])]"

definition mirror_solution :: "var \<Rightarrow> bool" where
  "mirror_solution v \<longleftrightarrow>
     v \<in> set [Fix (0, 1), Fix (1, 2), Fix (2, 0),
              Arc (1, 0) (0, 1) 0, Arc (2, 1) (1, 2) 0, Arc (2, 0) (2, 0) 0,
              Loop (1, 0) (1, 0), Loop (2, 1) (2, 1), Loop (2, 0) (0, 2),
              Place 0 0 0 1 0, Place 1 0 0 1 1, Place 2 0 1 2 0,
              Place 2 1 1 2 1, Place 1 1 2 0 0, Place 0 1 2 0 1]"

section \<open>The orientation library (\<open>ShapeCollection\<close>, polyomino.py)\<close>

text \<open>
  A point \<open>[x, y]\<close> is a pair. \<open>_normalise_pts_\<close> takes the bounding box of the points,
  fills a grid of Booleans over it and reads the grid back from the origin, column by
  column; \<open>min\<close> and \<open>max\<close> of an empty sequence raise \<open>ValueError\<close>.
  \<^verbatim>\<open>
    lx, bx = min(x[0] for x in d), 1 + max(x[0] for x in d)
    ly, by = min(x[1] for x in d), 1 + max(x[1] for x in d)
    grid = [[[x, y] in d for y in range(ly, by)] for x in range(lx, bx)]
    res = [[x, y] for x in range(bx-lx) for y in range(by-ly) if grid[x][y]]
  \<close>
\<close>

type_synonym point = "int \<times> int"

definition normalise_pts :: "point list \<Rightarrow> py_error + point list" where
  "normalise_pts d =
     (if d = [] then Inl ValueError
      else let lx = Min (set (map fst d)); bx = 1 + Max (set (map fst d));
               ly = Min (set (map snd d)); by = 1 + Max (set (map snd d));
               grid = map (\<lambda>x. map (\<lambda>y. (x, y) \<in> set d) [ly..by - 1]) [lx..bx - 1]
           in Inr [(x, y). x \<leftarrow> [0..bx - lx - 1], y \<leftarrow> [0..by - ly - 1], grid ! nat x ! nat y])"

text \<open>
  \<open>_square_p\<close>: the \<open>p\<close>-th of the eight symmetries of the square, applied to every point.
\<close>

definition square_p :: "point list \<Rightarrow> nat \<Rightarrow> point list" where
  "square_p pts p =
     map (\<lambda>(a, b). [(a, b), (- b, a), (- a, - b), (b, - a),
                     (b, a), (- a, b), (- b, - a), (a, - b)] ! (p mod 8)) pts"

text \<open>
  The body of the loop of \<open>ShapeCollection.fix\<close> for one shape:
  \<^verbatim>\<open>
    restrict = dict()
    base = ShapeCollection._normalise_pts_(pts)
    for f in range(8):
        fix = ShapeCollection._normalise_pts_(ShapeCollection._square_p(base, f))
        fix_str = str(fix)
        restrict[hash(fix_str)] = fix
    for i, fix in enumerate(restrict.values()):
        self.lib[(k, i)] = fix
  \<close>
  Python's \<open>hash\<close> of the string of an orientation is not part of the repository: it is
  the parameter \<open>key\<close>, from orientations to hash values. \<open>fix_loop\<close> is the first loop,
  \<open>fix_shape\<close> gives \<open>restrict.values()\<close>, the orientations stored for the shape in the
  order of their indices.
\<close>

fun fix_loop ::
  "(point list \<Rightarrow> 'h) \<Rightarrow> point list \<Rightarrow> nat list \<Rightarrow> ('h \<times> point list) list
     \<Rightarrow> py_error + ('h \<times> point list) list" where
  "fix_loop key base [] restrict = Inr restrict"
| "fix_loop key base (f # fs) restrict =
     (case normalise_pts (square_p base f) of
        Inl e \<Rightarrow> Inl e
      | Inr fx \<Rightarrow> fix_loop key base fs (dict_set restrict (key fx) fx))"

definition fix_shape :: "(point list \<Rightarrow> 'h) \<Rightarrow> point list \<Rightarrow> py_error + point list list" where
  "fix_shape key pts =
     (case normalise_pts pts of
        Inl e \<Rightarrow> Inl e
      | Inr base \<Rightarrow>
          (case fix_loop key base [0..<8] [] of
             Inl e \<Rightarrow> Inl e
           | Inr restrict \<Rightarrow> Inr (map snd restrict)))"


text \<open>
  The \<open>T\<close> of \<open>PentominoSet\<close>, as its dictionary gives it:
  \<^verbatim>\<open>"T": [[2, 1], [2, 2], [1, 3], [2, 3], [3, 3]]\<close>
\<close>

definition pentomino_T :: "point list" where
  "pentomino_T = [(2, 1), (2, 2), (1, 3), (2, 3), (3, 3)]"

section \<open>Auxiliary definitions of the proofs\<close>

text \<open>The contribution of one placement key to a sum: the value of its variable when the key is in \<open>self.place\<close>, and 0 otherwise.\<close>

definition pval ::
  "(var \<Rightarrow> bool) \<Rightarrow> dfix list \<Rightarrow> space \<Rightarrow> int \<Rightarrow> int \<Rightarrow> int \<Rightarrow> int \<Rightarrow> int \<Rightarrow> int" where
  "pval \<rho> ks space x y a b f =
     vsum \<rho> (if in_place ks space (x, y, a, b, f) then [Place x y a b f] else [])"


text \<open>
  What \<open>_normalise_pts_\<close> returns on a non-empty list, with the grid read as membership:
  the points moved so that the least coordinates are 0, in the order of the columns.
\<close>

definition origin_form :: "point list \<Rightarrow> point list" where
  "origin_form d =
     [(x, y). x \<leftarrow> [0..Max (set (map fst d)) - Min (set (map fst d))],
              y \<leftarrow> [0..Max (set (map snd d)) - Min (set (map snd d))],
              (x + Min (set (map fst d)), y + Min (set (map snd d))) \<in> set d]"

text \<open>The eight normalised images of a base shape, in the order of the loop.\<close>

definition images :: "point list \<Rightarrow> point list list" where
  "images base = map (\<lambda>f. origin_form (square_p base f)) [0..<8]"


text \<open>
  The specification's side of the orientation library. The symmetry group of the square is
  generated by the quarter turn and the mirror in the diagonal: its eight elements are the
  four turns, each alone and after the mirror. Normalising a point-set translates it so
  that the least coordinate on each axis is 0.
\<close>

definition quarter_turn :: "point \<Rightarrow> point" where
  "quarter_turn p = (- snd p, fst p)"

definition dihedral :: "(point \<Rightarrow> point) list" where
  "dihedral = [(quarter_turn ^^ i) \<circ> m. m \<leftarrow> [id, prod.swap], i \<leftarrow> [0..<4]]"

definition to_origin :: "point set \<Rightarrow> point set" where
  "to_origin S = (\<lambda>(x, y). (x - Min (fst ` S), y - Min (snd ` S))) ` S"

section \<open>Properties of the chain reconstruction\<close>

lemma chain_loop_total:
  "arc \<in> set used \<Longrightarrow>
   \<exists>res left. chain_loop arc used result = Inr (res, left)
     \<and> length res + length left = length result + length used
     \<and> length result < length res"
proof (induction arc used result rule: chain_loop.induct)
  case (1 arc used result)
  let ?u = "remove1 arc used"
  have len: "Suc (length ?u) = length used"
    using 1(2) by (simp add: length_remove1) (metis Suc_pred length_pos_if_in_set)
  show ?case
  proof (cases "find (\<lambda>link. fst link = snd arc) ?u")
    case None
    with 1(2) len show ?thesis
      by (simp add: chain_loop.simps [of arc used result])
  next
    case (Some nxt)
    then have "nxt \<in> set ?u"
      by (auto simp: find_Some_iff)
    from 1(1) [OF 1(2) Some this]
    obtain res left where
      "chain_loop nxt ?u (result @ [fst arc]) = Inr (res, left)"
      "length res + length left = length (result @ [fst arc]) + length ?u"
      "length (result @ [fst arc]) < length res"
      by blast
    with 1(2) Some len show ?thesis
      by (simp add: chain_loop.simps [of arc used result])
  qed
qed

text \<open>
  C10. The chain-following loop ends on every non-empty list of used arcs, valid circuit
  or not: it returns a result and the arcs left over, never an error; every iteration
  moves one arc from the list to the result, so it makes between one and
  \<open>length used\<close> iterations.
\<close>

theorem follow_chain_terminates:
  "used \<noteq> [] \<Longrightarrow>
   \<exists>res left. follow_chain used = Inr (res, left)
     \<and> length res + length left = length used
     \<and> 1 \<le> length res \<and> length res \<le> length used"
proof -
  assume "used \<noteq> []"
  then obtain arc rest where u: "used = arc # rest"
    by (cases used) auto
  then have "arc \<in> set used" by simp
  from chain_loop_total [OF this, of "[]"]
  obtain res left where r: "chain_loop arc used [] = Inr (res, left)"
    and l: "length res + length left = length used" and p: "0 < length res"
    by auto
  have "follow_chain used = Inr (res, left)"
    using r u by (simp add: follow_chain_def)
  moreover have "1 \<le> length res" "length res \<le> length used"
    using l p by (cases res, simp_all)+
  ultimately show ?thesis
    using l by blast
qed

theorem follow_chain_terminates_witness:
  "[(1::nat, 2::nat), (2, 1), (3, 4)] \<noteq> []
   \<and> (\<exists>res left. follow_chain [(1::nat, 2::nat), (2, 1), (3, 4)] = Inr (res, left)
     \<and> length res + length left = length [(1::nat, 2::nat), (2, 1), (3, 4)]
     \<and> 1 \<le> length res \<and> length res \<le> length [(1::nat, 2::nat), (2, 1), (3, 4)])"
  using follow_chain_terminates [of "[(1::nat, 2::nat), (2, 1), (3, 4)]"] by simp

lemma distinct_set_single: "distinct xs \<Longrightarrow> set xs = {x} \<Longrightarrow> xs = [x]"
proof (cases xs)
  case (Cons y ys)
  assume d: "distinct xs" and s: "set xs = {x}"
  with Cons have "y = x" "set ys \<subseteq> {x}" "x \<notin> set ys" by auto
  then have "ys = []" by (cases ys) auto
  with \<open>y = x\<close> Cons show ?thesis by simp
qed simp

lemma path_arcs_Cons2: "path_arcs (h # h' # rest) e = (h, h') # path_arcs (h' # rest) e"
  by (simp add: path_arcs_def)

lemma path_arcs_single: "path_arcs [h] e = [(h, e)]"
  by (simp add: path_arcs_def)

lemma fst_path_arcs: "map fst (path_arcs hs e) = hs"
  by (cases hs) (simp_all add: path_arcs_def map_fst_zip_take)

lemma hd_path_arcs:
  "hs \<noteq> [] \<Longrightarrow> hd (path_arcs hs e) \<in> set (path_arcs hs e) \<and> fst (hd (path_arcs hs e)) = hd hs"
proof (cases hs)
  case (Cons h rest)
  then show ?thesis by (cases rest) (simp_all add: path_arcs_def)
qed simp

lemma path_arcs_head_unique:
  assumes "distinct hs" "a \<in> set (path_arcs hs e)" "b \<in> set (path_arcs hs e)" "fst a = fst b"
  shows "a = b"
proof -
  have "distinct (map fst (path_arcs hs e))" using assms(1) by (simp add: fst_path_arcs)
  then have "inj_on fst (set (path_arcs hs e))" by (simp add: distinct_map)
  with assms show ?thesis by (auto dest: inj_onD)
qed

lemma chain_loop_path:
  "hs \<noteq> [] \<Longrightarrow> distinct hs \<Longrightarrow> e \<notin> set (tl hs) \<Longrightarrow> distinct used \<Longrightarrow>
   set used = set (path_arcs hs e) \<Longrightarrow>
   chain_loop (hd (path_arcs hs e)) used result = Inr (result @ hs, [])"
proof (induction hs arbitrary: used result)
  case Nil
  then show ?case by simp
next
  case (Cons h hs')
  show ?case
  proof (cases hs')
    case Nil
    with Cons.prems have u: "set used = {(h, e)}" "distinct used"
      by (simp_all add: path_arcs_single)
    then have "used = [(h, e)]"
      by (rule_tac distinct_set_single) auto
    then show ?thesis using Nil
      by (simp add: path_arcs_single chain_loop.simps [of "(h, e)"])
  next
    case (Cons h' rest)
    let ?u = "remove1 (h, h') used"
    let ?p = "path_arcs (h' # rest) e"
    have hnot: "(h, h') \<notin> set ?p"
      using Cons.prems(2) Cons fst_path_arcs [of "h' # rest" e]
      by (metis distinct.simps(2) fst_conv image_eqI list.set_map)
    have su: "set ?u = set ?p"
      using Cons.prems(4,5) Cons hnot by (auto simp: path_arcs_Cons2)
    have du: "distinct ?u" using Cons.prems(4) by simp
    have hin: "(h, h') \<in> set used"
      using Cons.prems(5) Cons by (simp add: path_arcs_Cons2)
    have hdp: "hd ?p \<in> set ?p" "fst (hd ?p) = h'"
      using hd_path_arcs [of "h' # rest" e] by simp_all
    obtain nxt where f: "find (\<lambda>link. fst link = h') ?u = Some nxt"
    proof (cases "find (\<lambda>link. fst link = h') ?u")
      case None
      then have "\<forall>x\<in>set ?p. fst x \<noteq> h'" using su by (auto simp: find_None_iff)
      with hdp show ?thesis by blast
    qed auto
    then have "nxt \<in> set ?p" "fst nxt = h'"
      using su by (auto simp: find_Some_iff)
    then have nxt: "nxt = hd ?p"
      using path_arcs_head_unique [of "h' # rest" nxt e "hd ?p"] hdp Cons.prems(2) Cons
      by simp
    have ih: "chain_loop (hd ?p) ?u (result @ [h]) = Inr ((result @ [h]) @ h' # rest, [])"
      using Cons.IH [of ?u "result @ [h]"] Cons.prems Cons du su by simp
    show ?thesis
      using hin f nxt ih Cons
      by (simp add: path_arcs_Cons2 chain_loop.simps [of "(h, h')" used result])
  qed
qed

lemma tour_arcs_path: "ns \<noteq> [] \<Longrightarrow> tour_arcs ns = path_arcs ns (hd ns)"
  by (cases ns) (simp_all add: tour_arcs_def path_arcs_def)

lemma zip_rotate1:
  "length xs = length ys \<Longrightarrow> zip (rotate1 xs) (rotate1 ys) = rotate1 (zip xs ys)"
  by (cases xs; cases ys) simp_all

lemma tour_arcs_rotate1: "tour_arcs (rotate1 ns) = rotate1 (tour_arcs ns)"
  by (simp add: tour_arcs_def zip_rotate1)

lemma set_tour_arcs_rotate: "set (tour_arcs (rotate k ns)) = set (tour_arcs ns)"
  by (induction k) (simp_all add: tour_arcs_rotate1)

lemma fst_tour_arcs: "map fst (tour_arcs ns) = ns"
  by (simp add: tour_arcs_def map_fst_zip_take)

lemma follow_closed_tour:
  assumes "closed_tour used ns"
  shows "\<exists>k. follow_chain used = Inr (rotate k ns, [])"
proof -
  from assms have ns: "ns \<noteq> []" "distinct ns" and du: "distinct used"
    and su: "set used = set (tour_arcs ns)"
    by (simp_all add: closed_tour_def)
  have "tour_arcs ns \<noteq> []" using ns(1) fst_tour_arcs [of ns] by auto
  with su obtain arc rest where u: "used = arc # rest" by (cases used) auto
  then have "fst arc \<in> set ns"
    using su fst_tour_arcs [of ns] by (metis image_eqI list.set_intros(1) list.set_map)
  then obtain k where k: "k < length ns" "ns ! k = fst arc"
    by (auto simp: in_set_conv_nth)
  let ?ms = "rotate k ns"
  have ms: "?ms \<noteq> []" "distinct ?ms" "hd ?ms = fst arc"
    using ns k by (simp_all add: hd_rotate_conv_nth)
  have sm: "set used = set (path_arcs ?ms (hd ?ms))"
    using su ms(1) by (simp add: set_tour_arcs_rotate flip: tour_arcs_path)
  have "hd (path_arcs ?ms (hd ?ms)) \<in> set (path_arcs ?ms (hd ?ms))"
    "fst (hd (path_arcs ?ms (hd ?ms))) = fst arc"
    using ms(1,3) hd_path_arcs [of ?ms "hd ?ms"] by simp_all
  moreover have "arc \<in> set (path_arcs ?ms (hd ?ms))" using sm u by auto
  ultimately have "hd (path_arcs ?ms (hd ?ms)) = arc"
    using path_arcs_head_unique [OF ms(2)] by blast
  moreover have "hd ?ms \<notin> set (tl ?ms)"
    using ms(1,2) by (cases ?ms) auto
  ultimately have "chain_loop arc used [] = Inr ([] @ ?ms, [])"
    using chain_loop_path [OF ms(1) ms(2) _ du sm, of "[]"] by simp
  then show ?thesis using u by (auto simp: follow_chain_def)
qed

lemma show_circuit_of:
  "follow_chain used = Inr (res, left) \<Longrightarrow>
   show_circuit used =
     Inr ((if distinct res then [] else [DuplicatesFound])
          @ [Chain (map Node res @ (if left \<noteq> [] then [Unused left] else []))])"
  by (simp add: show_circuit_def length_remdups_eq remdups_id_iff_distinct)

text \<open>
  C2. When the used arcs are one closed tour over the nodes \<open>ns\<close>, following them from the
  first used arc appends every node exactly once (the result is a rotation of \<open>ns\<close>),
  leaves no arc, and only the chain is printed. In general the line \<open>duplicates found!\<close>
  is printed exactly when the result repeats a node and the entry \<open>unused:\<close> exactly when
  arcs are left; infeasibility is reported by \<open>summarise\<close>, from the solver status alone.
\<close>

theorem chain_round_trip:
  "(closed_tour used ns \<longrightarrow>
      (\<exists>k. follow_chain used = Inr (rotate k ns, [])
         \<and> show_circuit used = Inr [Chain (map Node (rotate k ns))]
         \<and> distinct (rotate k ns) \<and> set (rotate k ns) = fst ` set used
         \<and> length (rotate k ns) = length used))
   \<and> (follow_chain used = Inr (res, left) \<longrightarrow>
      (\<exists>es. show_circuit used = Inr ((if distinct res then [] else [DuplicatesFound]) @ [Chain es])
         \<and> (Unused left \<in> set es \<longleftrightarrow> left \<noteq> [])))
   \<and> (fst (summarise st) = Infeasible \<longleftrightarrow> st = INFEASIBLE)"
proof (intro conjI impI)
  assume t: "closed_tour used ns"
  then obtain k where k: "follow_chain used = Inr (rotate k ns, [])"
    using follow_closed_tour by blast
  from t have "distinct ns" "distinct used" "set used = set (tour_arcs ns)"
    by (simp_all add: closed_tour_def)
  moreover have "fst ` set (tour_arcs ns) = set ns" "length (tour_arcs ns) = length ns"
    using fst_tour_arcs [of ns] by (metis list.set_map, metis length_map)
  moreover have "distinct (tour_arcs ns)"
    using \<open>distinct ns\<close> fst_tour_arcs [of ns] by (metis distinct_map)
  moreover have "length used = card (set used)" "length (tour_arcs ns) = card (set (tour_arcs ns))"
    using \<open>distinct used\<close> \<open>distinct (tour_arcs ns)\<close> by (simp_all add: distinct_card)
  ultimately have "distinct (rotate k ns)" "set (rotate k ns) = fst ` set used"
    "length (rotate k ns) = length used"
    by simp_all
  with k show_circuit_of [OF k]
  show "\<exists>k. follow_chain used = Inr (rotate k ns, [])
         \<and> show_circuit used = Inr [Chain (map Node (rotate k ns))]
         \<and> distinct (rotate k ns) \<and> set (rotate k ns) = fst ` set used
         \<and> length (rotate k ns) = length used"
    by auto
next
  assume "follow_chain used = Inr (res, left)"
  from show_circuit_of [OF this]
  show "\<exists>es. show_circuit used = Inr ((if distinct res then [] else [DuplicatesFound]) @ [Chain es])
         \<and> (Unused left \<in> set es \<longleftrightarrow> left \<noteq> [])"
    by auto
next
  show "fst (summarise st) = Infeasible \<longleftrightarrow> st = INFEASIBLE"
    by (simp add: summarise_def)
qed

theorem chain_round_trip_witness:
  "closed_tour [((1::int, 2::int), (2::int, 0::int)), ((0, 1), (1, 2)), ((2, 0), (0, 1))]
               [(0, 1), (1, 2), (2, 0)]
   \<and> follow_chain [((1::int, 2::int), (2::int, 0::int)), ((0, 1), (1, 2)), ((2, 0), (0, 1))]
       = Inr ([(1, 2), (2, 0), (0, 1)], [])
   \<and> (\<exists>k. show_circuit [((1::int, 2::int), (2::int, 0::int)), ((0, 1), (1, 2)), ((2, 0), (0, 1))]
       = Inr [Chain (map Node (rotate k [(0, 1), (1, 2), (2, 0)]))])
   \<and> follow_chain [(1::nat, 2::nat), (2, 1), (3, 4), (1, 5)] = Inr ([1, 2, 1], [(3, 4)])
   \<and> (\<exists>es. show_circuit [(1::nat, 2::nat), (2, 1), (3, 4), (1, 5)] = Inr [DuplicatesFound, Chain es]
         \<and> Unused [(3, 4)] \<in> set es)"
proof -
  let ?U = "[((1::int, 2::int), (2::int, 0::int)), ((0, 1), (1, 2)), ((2, 0), (0, 1))]"
  let ?N = "[(0::int, 1::int), (1, 2), (2, 0)]"
  let ?V = "[(1::nat, 2::nat), (2, 1), (3, 4), (1, 5)]"
  have h: "closed_tour ?U ?N"
    by (simp add: closed_tour_def tour_arcs_def) auto
  have f: "follow_chain ?U = Inr ([(1, 2), (2, 0), (0, 1)], [])"
    by (simp add: follow_chain_def chain_loop.simps)
  have g: "follow_chain ?V = Inr ([1, 2, 1], [(3, 4)])"
    by (simp add: follow_chain_def chain_loop.simps)
  from chain_round_trip [of ?U ?N "[]" "[]" INFEASIBLE] h
  have 1: "\<exists>k. show_circuit ?U = Inr [Chain (map Node (rotate k ?N))]"
    by blast
  from chain_round_trip [of ?V "[]" "[1, 2, 1]" "[(3, 4)]" INFEASIBLE] g
  have 2: "\<exists>es. show_circuit ?V = Inr [DuplicatesFound, Chain es] \<and> Unused [(3, 4)] \<in> set es"
    by simp
  from h f g 1 2 show ?thesis by blast
qed

section \<open>Properties of the connectivity graph\<close>

lemma set_dominoes: "set (dominoes sz) = (\<Union>y\<in>{0..sz}. (\<lambda>x. (x, y)) ` {y..sz})"
  by (simp add: dominoes_def)

lemma dominoes_mem: "(x, y) \<in> set (dominoes sz) \<longleftrightarrow> 0 \<le> y \<and> y \<le> x \<and> x \<le> sz"
proof
  assume h: "0 \<le> y \<and> y \<le> x \<and> x \<le> sz"
  then have "y \<in> {0..sz}" "(x, y) \<in> (\<lambda>x. (x, y)) ` {y..sz}" by simp_all
  then show "(x, y) \<in> set (dominoes sz)"
    unfolding set_dominoes by (rule UN_I)
next
  assume "(x, y) \<in> set (dominoes sz)"
  then show "0 \<le> y \<and> y \<le> x \<and> x \<le> sz"
    unfolding set_dominoes by auto
qed

lemma distinct_concat_map:
  "distinct ks \<Longrightarrow> (\<And>k. k \<in> set ks \<Longrightarrow> distinct (f k)) \<Longrightarrow>
   (\<And>k k'. k \<in> set ks \<Longrightarrow> k' \<in> set ks \<Longrightarrow> k \<noteq> k' \<Longrightarrow> set (f k) \<inter> set (f k') = {}) \<Longrightarrow>
   distinct (concat (map f ks))"
proof (induction ks)
  case (Cons k ks)
  have "set (f k) \<inter> set (f k') = {}" if "k' \<in> set ks" for k'
    using Cons.prems(1) Cons.prems(3) [of k k'] that by auto
  moreover have "distinct (concat (map f ks))"
    using Cons by simp
  ultimately show ?case using Cons.prems(2) by auto
qed simp

lemma distinct_dominoes: "distinct (dominoes sz)"
proof -
  have "distinct (concat (map (\<lambda>y. map (\<lambda>x. (x, y)) [y..sz]) [0..sz]))"
  proof (rule distinct_concat_map)
    show "distinct [0..sz]" by simp
  next
    fix k show "distinct (map (\<lambda>x. (x, k)) [k..sz])"
      by (simp add: distinct_map inj_on_def)
  next
    fix k k' :: int assume "k \<noteq> k'"
    then show "set (map (\<lambda>x. (x, k)) [k..sz]) \<inter> set (map (\<lambda>x. (x, k')) [k'..sz]) = {}"
      by auto
  qed
  then show ?thesis by (simp add: dominoes_def)
qed

lemma fixed_mem:
  "((x, y), fs) \<in> set (fixed sz) \<longleftrightarrow>
     (x, y) \<in> set (dominoes sz) \<and> fs = (if x = y then [(x, y)] else [(x, y), (y, x)])"
proof -
  let ?f = "\<lambda>d. (d, remdups [(fst d, snd d), (snd d, fst d)])"
  have "fixed sz = map ?f (dominoes sz)"
    by (simp add: fixed_def case_prod_unfold del: remdups.simps)
  then have "((x, y), fs) \<in> set (fixed sz) \<longleftrightarrow> ((x, y), fs) \<in> ?f ` set (dominoes sz)"
    by (simp del: remdups.simps)
  also have "\<dots> \<longleftrightarrow> (x, y) \<in> set (dominoes sz) \<and> fs = remdups [(x, y), (y, x)]"
    by (auto simp del: remdups.simps)
  also have "remdups [(x, y), (y, x)] = (if x = y then [(x, y)] else [(x, y), (y, x)])"
    by simp
  finally show ?thesis .
qed

lemma fix_piece:
  assumes "(d, fs) \<in> set (fixed sz)" "f \<in> set fs"
  shows "d = (max (fst f) (snd f), min (fst f) (snd f))"
proof -
  obtain x y where d: "d = (x, y)" by (cases d)
  from assms(1) have "y \<le> x" "fs = (if x = y then [(x, y)] else [(x, y), (y, x)])"
    unfolding d fixed_mem dominoes_mem by simp_all
  with assms(2) d show ?thesis by (auto split: if_splits)
qed

lemma distinct_fixed_keys: "distinct (map fst (fixed sz))"
proof -
  have "map fst (fixed sz) = dominoes sz"
    by (simp add: fixed_def case_prod_unfold comp_def del: remdups.simps)
  then show ?thesis by (simp add: distinct_dominoes)
qed

lemma distinct_all_fixes: "distinct (concat (map snd (fixed sz)))"
proof (rule distinct_concat_map)
  show "distinct (fixed sz)"
    using distinct_fixed_keys [of sz] by (metis distinct_map)
next
  fix k assume k: "k \<in> set (fixed sz)"
  obtain x y fs where "k = ((x, y), fs)" by (metis surj_pair)
  with k show "distinct (snd k)" by (simp add: fixed_mem)
next
  fix k k' assume "k \<in> set (fixed sz)" "k' \<in> set (fixed sz)" "k \<noteq> k'"
  moreover obtain d fs d' fs' where "k = (d, fs)" "k' = (d', fs')" by (cases k; cases k')
  moreover have "distinct (map fst (fixed sz))" by (rule distinct_fixed_keys)
  ultimately have "d \<noteq> d'" "(d, fs) \<in> set (fixed sz)" "(d', fs') \<in> set (fixed sz)"
    "snd k = fs" "snd k' = fs'"
    by (auto dest: eq_key_imp_eq_value)
  then show "set (snd k) \<inter> set (snd k') = {}"
    using fix_piece [of d fs sz] fix_piece [of d' fs' sz] by auto
qed

lemma set_concat_filter_subset:
  "set (concat (map (\<lambda>(k, vs). if Q k then filter P vs else []) kvs))
     \<subseteq> set (concat (map snd kvs))"
  by (induction kvs) auto

lemma distinct_concat_filter:
  "distinct (concat (map snd kvs)) \<Longrightarrow>
   distinct (concat (map (\<lambda>(k, vs). if Q k then filter P vs else []) kvs))"
proof (induction kvs)
  case (Cons kv kvs)
  obtain k vs where kv: "kv = (k, vs)" by (cases kv)
  have "set (filter P vs) \<inter> set (concat (map (\<lambda>(k, vs). if Q k then filter P vs else []) kvs)) = {}"
    using Cons.prems set_concat_filter_subset [of Q P kvs] unfolding kv by auto
  with Cons kv show ?case by simp
qed simp

lemma concat_if_filter: "concat (map (\<lambda>x. if P x then [x] else []) xs) = filter P xs"
  by (induction xs) auto

lemma tails_of_alt:
  "tails_of fx d d_fix =
     concat (map (\<lambda>(k, vs). if k \<noteq> d then filter (\<lambda>o_fix. fst o_fix = snd d_fix) vs else []) fx)"
  unfolding tails_of_def
  by (induction fx) (auto simp: concat_if_filter)

lemma distinct_tails_of: "distinct (tails_of (fixed sz) d d_fix)"
  unfolding tails_of_alt by (rule distinct_concat_filter) (rule distinct_all_fixes)

lemma tails_of_mem:
  "o_fix \<in> set (tails_of fx d d_fix) \<longleftrightarrow>
     (\<exists>od o_fixes. (od, o_fixes) \<in> set fx \<and> od \<noteq> d \<and> o_fix \<in> set o_fixes \<and> fst o_fix = snd d_fix)"
  unfolding tails_of_def by auto

lemma graph_mem:
  "(d, fs) \<in> set (DominoDigraph sz) \<longleftrightarrow>
     (\<exists>d_fixes. (d, d_fixes) \<in> set (fixed sz)
        \<and> fs = map (\<lambda>d_fix. (d_fix, tails_of (fixed sz) d d_fix)) d_fixes)"
  unfolding DominoDigraph_def by auto

text \<open>
  C7. In the graph built for any size, for fixes \<open>d_fix\<close> of domino \<open>d\<close> and \<open>o_fix\<close> of
  domino \<open>od\<close>: \<open>o_fix\<close> is in the tails list of \<open>d_fix\<close> exactly when the two dominoes
  differ and the leading value of \<open>o_fix\<close> is the trailing value of \<open>d_fix\<close>; and a tails
  list never holds a fix twice.
\<close>

theorem arc_set_construction:
  assumes "(d, fs) \<in> set (DominoDigraph sz)" and "(d_fix, tails) \<in> set fs"
    and "(od, ofs) \<in> set (DominoDigraph sz)" and "(o_fix, ts) \<in> set ofs"
  shows "(o_fix \<in> set tails \<longleftrightarrow> od \<noteq> d \<and> fst o_fix = snd d_fix) \<and> distinct tails"
proof -
  from assms(1,2) obtain d_fixes where d: "(d, d_fixes) \<in> set (fixed sz)"
    "d_fix \<in> set d_fixes" and t: "tails = tails_of (fixed sz) d d_fix"
    unfolding graph_mem by auto
  from assms(3,4) obtain o_fixes where od: "(od, o_fixes) \<in> set (fixed sz)" "o_fix \<in> set o_fixes"
    unfolding graph_mem by auto
  have "o_fix \<in> set tails \<longleftrightarrow> od \<noteq> d \<and> fst o_fix = snd d_fix"
  proof
    assume "o_fix \<in> set tails"
    then obtain od' o_fixes' where o': "(od', o_fixes') \<in> set (fixed sz)" "od' \<noteq> d"
      "o_fix \<in> set o_fixes'" "fst o_fix = snd d_fix"
      unfolding t tails_of_mem by blast
    from fix_piece [OF o'(1,3)] fix_piece [OF od] have "od' = od" by simp
    with o' show "od \<noteq> d \<and> fst o_fix = snd d_fix" by simp
  next
    assume "od \<noteq> d \<and> fst o_fix = snd d_fix"
    with od show "o_fix \<in> set tails" unfolding t tails_of_mem by blast
  qed
  moreover have "distinct tails" unfolding t by (rule distinct_tails_of)
  ultimately show ?thesis by simp
qed

lemma DominoDigraph_1:
  "DominoDigraph 1 =
     [((0, 0), [((0, 0), [(0, 1)])]),
      ((1, 0), [((1, 0), [(0, 0)]), ((0, 1), [(1, 1)])]),
      ((1, 1), [((1, 1), [(1, 0)])])]"
  by code_simp

theorem arc_set_construction_witness:
  "((1, 0), [((1, 0), [(0, 0)]), ((0, 1), [(1, 1)])]) \<in> set (DominoDigraph 1)
   \<and> ((1, 1), [((1, 1), [(1, 0)])]) \<in> set (DominoDigraph 1)
   \<and> ((1::int, 1::int) \<in> set [(1, 1)] \<longleftrightarrow>
        (1::int, 1::int) \<noteq> (1, 0) \<and> fst (1::int, 1::int) = snd (0::int, 1::int))
   \<and> distinct [(1::int, 1::int)]"
proof -
  have 1: "((1, 0), [((1, 0), [(0, 0)]), ((0, 1), [(1, 1)])]) \<in> set (DominoDigraph 1)"
    and 2: "((1, 1), [((1, 1), [(1, 0)])]) \<in> set (DominoDigraph 1)"
    by (simp_all add: DominoDigraph_1)
  from arc_set_construction [OF 1 _ 2, of "(0, 1)" "[(1, 1)]" "(1, 1)" "[(1, 0)]"] 1 2
  show ?thesis by simp
qed

section \<open>Properties of the constraint model\<close>

lemma setup_Inr:
  "solver_setup g space = Inr m \<Longrightarrow> m = circuit_constraints g @ set_placements g space"
  by (auto simp: solver_setup_def set_circuit_def split: if_splits sum.splits)

lemma satD: "sat \<rho> m \<Longrightarrow> c \<in> set m \<Longrightarrow> holds \<rho> c"
  by (simp add: sat_def)

lemma ring_setup:
  "solver_setup ring_graph (grid 3 2)
     = Inr (circuit_constraints ring_graph @ set_placements ring_graph (grid 3 2))"
  by code_simp

lemma ring_sat:
  "sat ring_solution (circuit_constraints ring_graph @ set_placements ring_graph (grid 3 2))"
  by code_simp

lemma filter_single: "length (filter P xs) = 1 \<Longrightarrow> \<exists>!x. x \<in> set xs \<and> P x"
proof -
  assume "length (filter P xs) = 1"
  then obtain y where y: "filter P xs = [y]"
    by (cases "filter P xs") auto
  then have "set (filter P xs) = {y}" by simp
  then have "\<And>x. (x \<in> set xs \<and> P x) \<longleftrightarrow> x = y" by auto
  then show ?thesis by auto
qed

lemma vsum_1: "vsum \<rho> vs = 1 \<Longrightarrow> \<exists>!v. v \<in> set vs \<and> \<rho> v"
  by (rule filter_single) (simp add: vsum_def)

lemma vsum_0: "vsum \<rho> vs = 0 \<Longrightarrow> \<forall>v \<in> set vs. \<not> \<rho> v"
  by (simp add: vsum_def filter_empty_conv)

lemma vsum_Nil [simp]: "vsum \<rho> [] = 0"
  by (simp add: vsum_def)

lemma vsum_single: "vsum \<rho> [v] = (if \<rho> v then 1 else 0)"
  by (simp add: vsum_def)

lemma in_place_iff:
  "in_place ks space (x, y, a, b, f) \<longleftrightarrow>
     (a, b) \<in> set ks \<and> (\<exists>lab. ((x, y), lab) \<in> set space
        \<and> (case lab of None \<Rightarrow> f = 1 \<or> f = 0
            | Some l \<Rightarrow> (f = 1 \<and> l = b) \<or> (f = 0 \<and> l = a)))"
proof -
  define keys_at :: "dfix \<Rightarrow> cell \<times> int option \<Rightarrow> (int \<times> int \<times> int \<times> int \<times> int) list"
    where "keys_at = (\<lambda>ab c. case snd c of
        None \<Rightarrow> [(fst (fst c), snd (fst c), fst ab, snd ab, 1), (fst (fst c), snd (fst c), fst ab, snd ab, 0)]
      | Some l \<Rightarrow> (if l = snd ab then [(fst (fst c), snd (fst c), fst ab, snd ab, 1)] else [])
                 @ (if l = fst ab then [(fst (fst c), snd (fst c), fst ab, snd ab, 0)] else []))"
  have alt: "place_keys ks space = concat (map (\<lambda>ab. concat (map (keys_at ab) space)) ks)"
    by (simp add: place_keys_def keys_at_def split_def)
  have mem: "(x, y, a, b, f) \<in> set (keys_at ab c) \<longleftrightarrow>
     ab = (a, b) \<and> fst c = (x, y)
     \<and> (case snd c of None \<Rightarrow> f = 1 \<or> f = 0 | Some l \<Rightarrow> (f = 1 \<and> l = b) \<or> (f = 0 \<and> l = a))"
    for ab c
    by (cases ab; cases c; cases "snd c") (auto simp: keys_at_def)
  have "in_place ks space (x, y, a, b, f) \<longleftrightarrow>
          (\<exists>ab \<in> set ks. \<exists>c \<in> set space. (x, y, a, b, f) \<in> set (keys_at ab c))"
    by (simp add: in_place_def alt)
  also have "\<dots> \<longleftrightarrow> (a, b) \<in> set ks \<and> (\<exists>c \<in> set space. fst c = (x, y)
        \<and> (case snd c of None \<Rightarrow> f = 1 \<or> f = 0 | Some l \<Rightarrow> (f = 1 \<and> l = b) \<or> (f = 0 \<and> l = a)))"
    unfolding mem by blast
  also have "\<dots> \<longleftrightarrow> (a, b) \<in> set ks \<and> (\<exists>lab. ((x, y), lab) \<in> set space
        \<and> (case lab of None \<Rightarrow> f = 1 \<or> f = 0
            | Some l \<Rightarrow> (f = 1 \<and> l = b) \<or> (f = 0 \<and> l = a)))"
    by (metis (no_types, lifting) fst_conv snd_conv prod.collapse)
  finally show ?thesis .
qed

lemma in_placeD:
  "in_place ks space (x, y, a, b, f) \<Longrightarrow>
   (a, b) \<in> set ks \<and> (x, y) \<in> fst ` set space \<and> (f = 0 \<or> f = 1)"
  unfolding in_place_iff by (force split: option.splits)

lemma cell_vars_mem:
  "Place x' y' a b f \<in> set (cell_vars ks space x y) \<longleftrightarrow>
     x' = x \<and> y' = y \<and> in_place ks space (x, y, a, b, f)"
proof -
  have "Place x' y' a b f \<in> set (cell_vars ks space x y) \<longleftrightarrow>
     (\<exists>ab \<in> set ks. \<exists>f' \<in> {0, 1}. in_place ks space (x, y, fst ab, snd ab, f')
         \<and> Place x' y' a b f = Place x y (fst ab) (snd ab) f')"
    by (auto simp: cell_vars_def split_def)
  also have "\<dots> \<longleftrightarrow> x' = x \<and> y' = y \<and> in_place ks space (x, y, a, b, f)"
  proof
    assume r: "x' = x \<and> y' = y \<and> in_place ks space (x, y, a, b, f)"
    with in_placeD [of ks space x y a b f] have "(a, b) \<in> set ks" "f \<in> {0, 1}" by auto
    then show "\<exists>ab \<in> set ks. \<exists>f' \<in> {0, 1}. in_place ks space (x, y, fst ab, snd ab, f')
         \<and> Place x' y' a b f = Place x y (fst ab) (snd ab) f'"
      using r by (intro bexI [of _ "(a, b)"] bexI [of _ f]) auto
  qed auto
  finally show ?thesis .
qed

lemma fix_vars_mem:
  "Place x y a' b' f' \<in> set (fix_vars ks space a b f) \<longleftrightarrow>
     a' = a \<and> b' = b \<and> f' = f \<and> in_place ks space (x, y, a, b, f)"
proof -
  have "Place x y a' b' f' \<in> set (fix_vars ks space a b f) \<longleftrightarrow>
     (\<exists>c \<in> set space. in_place ks space (fst (fst c), snd (fst c), a, b, f)
         \<and> Place x y a' b' f' = Place (fst (fst c)) (snd (fst c)) a b f)"
    by (auto simp: fix_vars_def split_def)
  also have "\<dots> \<longleftrightarrow> a' = a \<and> b' = b \<and> f' = f \<and> in_place ks space (x, y, a, b, f)"
  proof
    assume r: "a' = a \<and> b' = b \<and> f' = f \<and> in_place ks space (x, y, a, b, f)"
    with in_placeD [of ks space x y a b f] obtain c where "c \<in> set space" "fst c = (x, y)"
      by auto
    then show "\<exists>c \<in> set space. in_place ks space (fst (fst c), snd (fst c), a, b, f)
         \<and> Place x y a' b' f' = Place (fst (fst c)) (snd (fst c)) a b f"
      using r by (intro bexI [of _ c]) auto
  qed auto
  finally show ?thesis .
qed

lemma cell_constr_mem:
  assumes "((x, y), lab) \<in> set space"
  shows "LinEq (cell_vars ks space x y) [] 1 \<in> set (cell_constraints ks space)"
proof -
  have "LinEq (cell_vars ks space (fst (fst c)) (snd (fst c))) [] 1 \<in> set (cell_constraints ks space)"
    if "c \<in> set space" for c
    using that by (auto simp: cell_constraints_def split_def)
  from this [OF assms] show ?thesis by simp
qed

lemma fix_constr_mem:
  assumes "(a, b) \<in> set ks" "f = 0 \<or> f = 1"
  shows "LinEq (fix_vars ks space a b f) [Fix (a, b)] 0 \<in> set (fix_sums ks space)"
proof -
  have "LinEq (fix_vars ks space (fst ab) (snd ab) f) [Fix ab] 0 \<in> set (fix_sums ks space)"
    if "ab \<in> set ks" for ab
    using that assms(2) by (auto simp: fix_sums_def split_def)
  from this [OF assms(1)] show ?thesis by simp
qed

lemma placements_mem:
  "c \<in> set (fix_sums (fix_nodes g) space) \<or> c \<in> set (cell_constraints (fix_nodes g) space)
   \<or> c \<in> set (glue_constraints g space) \<Longrightarrow> c \<in> set (set_placements g space)"
  by (auto simp: set_placements_def)

lemma setup_mem:
  "solver_setup g space = Inr m \<Longrightarrow> c \<in> set (set_placements g space) \<Longrightarrow> c \<in> set m"
  by (auto dest: setup_Inr)

text \<open>
  C3. The built model contains, for every cell of the space, the constraint that the
  placement variables at that cell (every fix, both roles) sum to 1, and for every fix
  and each role the constraint that its placement variables over the cells sum to the
  fix's activity variable. Hence in every satisfying assignment exactly one placement is
  true at each cell, an active fix has exactly one true head placement and exactly one
  true tail placement, and an inactive fix has none.
\<close>

theorem exact_cover_and_linkage:
  assumes "solver_setup g space = Inr m"
  shows "(\<forall>((x, y), lab) \<in> set space. LinEq (cell_vars (fix_nodes g) space x y) [] 1 \<in> set m)
    \<and> (\<forall>(a, b) \<in> set (fix_nodes g). \<forall>f \<in> {0, 1}.
          LinEq (fix_vars (fix_nodes g) space a b f) [Fix (a, b)] 0 \<in> set m)
    \<and> (\<forall>x y a b f. Place x y a b f \<in> set (cell_vars (fix_nodes g) space x y)
          \<longleftrightarrow> in_place (fix_nodes g) space (x, y, a, b, f))
    \<and> (\<forall>x y a b f. Place x y a b f \<in> set (fix_vars (fix_nodes g) space a b f)
          \<longleftrightarrow> in_place (fix_nodes g) space (x, y, a, b, f))
    \<and> (sat \<rho> m \<longrightarrow>
          (\<forall>((x, y), lab) \<in> set space. \<exists>!v. v \<in> set (cell_vars (fix_nodes g) space x y) \<and> \<rho> v)
        \<and> (\<forall>(a, b) \<in> set (fix_nodes g). \<forall>f \<in> {0, 1}.
              (\<rho> (Fix (a, b)) \<longrightarrow> (\<exists>!v. v \<in> set (fix_vars (fix_nodes g) space a b f) \<and> \<rho> v))
            \<and> (\<not> \<rho> (Fix (a, b)) \<longrightarrow> (\<forall>v \<in> set (fix_vars (fix_nodes g) space a b f). \<not> \<rho> v))))"
proof -
  let ?ks = "fix_nodes g"
  have cell: "LinEq (cell_vars ?ks space x y) [] 1 \<in> set m" if "((x, y), lab) \<in> set space"
    for x y lab
    using cell_constr_mem [OF that, of "fix_nodes g"] setup_mem [OF assms]
    by (simp add: set_placements_def)
  have fx: "LinEq (fix_vars ?ks space a b f) [Fix (a, b)] 0 \<in> set m"
    if "(a, b) \<in> set ?ks" "f \<in> {0, 1}" for a b f
    using fix_constr_mem [of a b ?ks f space] that setup_mem [OF assms]
    by (simp add: set_placements_def)
  have s1: "\<exists>!v. v \<in> set (cell_vars ?ks space x y) \<and> \<rho> v"
    if "sat \<rho> m" "((x, y), lab) \<in> set space" for x y lab
    using satD [OF that(1) cell [OF that(2)]] by (intro vsum_1) simp
  have s2: "(\<rho> (Fix (a, b)) \<longrightarrow> (\<exists>!v. v \<in> set (fix_vars ?ks space a b f) \<and> \<rho> v))
            \<and> (\<not> \<rho> (Fix (a, b)) \<longrightarrow> (\<forall>v \<in> set (fix_vars ?ks space a b f). \<not> \<rho> v))"
    if "sat \<rho> m" "(a, b) \<in> set ?ks" "f \<in> {0, 1}" for a b f
  proof -
    have "vsum \<rho> (fix_vars ?ks space a b f) = (if \<rho> (Fix (a, b)) then 1 else 0)"
      using satD [OF that(1) fx [OF that(2,3)]] by (simp add: vsum_single)
    then have "\<rho> (Fix (a, b)) \<Longrightarrow> vsum \<rho> (fix_vars ?ks space a b f) = 1"
      and "\<not> \<rho> (Fix (a, b)) \<Longrightarrow> vsum \<rho> (fix_vars ?ks space a b f) = 0"
      by simp_all
    then show ?thesis
      by (intro conjI impI vsum_1 vsum_0)
  qed
  have c1: "\<forall>((x, y), lab) \<in> set space. LinEq (cell_vars ?ks space x y) [] 1 \<in> set m"
    using cell by blast
  have c2: "\<forall>(a, b) \<in> set ?ks. \<forall>f \<in> {0, 1}. LinEq (fix_vars ?ks space a b f) [Fix (a, b)] 0 \<in> set m"
    using fx by blast
  have c3: "\<forall>x y a b f. Place x y a b f \<in> set (cell_vars ?ks space x y)
          \<longleftrightarrow> in_place ?ks space (x, y, a, b, f)"
    by (simp add: cell_vars_mem)
  have c4: "\<forall>x y a b f. Place x y a b f \<in> set (fix_vars ?ks space a b f)
          \<longleftrightarrow> in_place ?ks space (x, y, a, b, f)"
    by (simp add: fix_vars_mem)
  have c5: "sat \<rho> m \<longrightarrow>
          (\<forall>((x, y), lab) \<in> set space. \<exists>!v. v \<in> set (cell_vars ?ks space x y) \<and> \<rho> v)
        \<and> (\<forall>(a, b) \<in> set ?ks. \<forall>f \<in> {0, 1}.
              (\<rho> (Fix (a, b)) \<longrightarrow> (\<exists>!v. v \<in> set (fix_vars ?ks space a b f) \<and> \<rho> v))
            \<and> (\<not> \<rho> (Fix (a, b)) \<longrightarrow> (\<forall>v \<in> set (fix_vars ?ks space a b f). \<not> \<rho> v)))"
  proof (intro impI conjI)
    assume "sat \<rho> m"
    from s1 [OF this]
    show "\<forall>((x, y), lab) \<in> set space. \<exists>!v. v \<in> set (cell_vars ?ks space x y) \<and> \<rho> v"
      by blast
    from s2 [OF \<open>sat \<rho> m\<close>]
    show "\<forall>(a, b) \<in> set ?ks. \<forall>f \<in> {0, 1}.
              (\<rho> (Fix (a, b)) \<longrightarrow> (\<exists>!v. v \<in> set (fix_vars ?ks space a b f) \<and> \<rho> v))
            \<and> (\<not> \<rho> (Fix (a, b)) \<longrightarrow> (\<forall>v \<in> set (fix_vars ?ks space a b f). \<not> \<rho> v))"
      by blast
  qed
  from c1 c2 c3 c4 c5 show ?thesis by (intro conjI)
qed

theorem exact_cover_and_linkage_witness:
  "solver_setup ring_graph (grid 3 2)
     = Inr (circuit_constraints ring_graph @ set_placements ring_graph (grid 3 2))
   \<and> sat ring_solution (circuit_constraints ring_graph @ set_placements ring_graph (grid 3 2))
   \<and> ((0, 0), None) \<in> set (grid 3 2)
   \<and> (\<exists>!v. v \<in> set (cell_vars (fix_nodes ring_graph) (grid 3 2) 0 0) \<and> ring_solution v)
   \<and> (0, 1) \<in> set (fix_nodes ring_graph) \<and> ring_solution (Fix (0, 1))
   \<and> (\<exists>!v. v \<in> set (fix_vars (fix_nodes ring_graph) (grid 3 2) 0 1 1) \<and> ring_solution v)"
proof -
  note t = exact_cover_and_linkage [OF ring_setup, of ring_solution]
  have c: "((0, 0), None) \<in> set (grid 3 2)" by code_simp
  have k: "(0, 1) \<in> set (fix_nodes ring_graph)" by code_simp
  have f: "ring_solution (Fix (0, 1))" by code_simp
  note u = t [THEN conjunct2, THEN conjunct2, THEN conjunct2, THEN conjunct2, THEN mp, OF ring_sat]
  have r: "(1::int) \<in> {0, 1}" by simp
  have 1: "\<exists>!v. v \<in> set (cell_vars (fix_nodes ring_graph) (grid 3 2) 0 0) \<and> ring_solution v"
    by (rule u [THEN conjunct1, THEN bspec, OF c, unfolded prod.case])
  have 2: "\<exists>!v. v \<in> set (fix_vars (fix_nodes ring_graph) (grid 3 2) 0 1 1) \<and> ring_solution v"
    by (rule u [THEN conjunct2, THEN bspec, OF k, unfolded prod.case, THEN bspec, OF r,
                THEN conjunct1, THEN mp, OF f])
  from ring_setup ring_sat c k f 1 2 show ?thesis by (intro conjI)
qed

lemma adj_mem:
  "(i, j) \<in> set (adj space x y) \<longleftrightarrow> (i, j) \<in> fst ` set space \<and> \<bar>i - x\<bar> + \<bar>j - y\<bar> = 1"
proof -
  have "(i, j) \<in> set [(x - 1, y), (x + 1, y), (x, y - 1), (x, y + 1)] \<longleftrightarrow> \<bar>i - x\<bar> + \<bar>j - y\<bar> = 1"
    by (simp add: abs_if) arith
  then show ?thesis by (auto simp: adj_def)
qed

lemma halves_mem:
  "v \<in> set (halves ks space x y a b) \<longleftrightarrow>
     (\<exists>i j. v = Place i j a b 0 \<and> (i, j) \<in> fst ` set space \<and> \<bar>i - x\<bar> + \<bar>j - y\<bar> = 1
            \<and> in_place ks space (i, j, a, b, 0))"
proof -
  have "v \<in> set (halves ks space x y a b) \<longleftrightarrow>
     (\<exists>ij \<in> set (adj space x y). in_place ks space (fst ij, snd ij, a, b, 0)
         \<and> v = Place (fst ij) (snd ij) a b 0)"
    by (auto simp: halves_def split_def)
  also have "\<dots> \<longleftrightarrow> (\<exists>i j. (i, j) \<in> set (adj space x y) \<and> in_place ks space (i, j, a, b, 0)
         \<and> v = Place i j a b 0)"
    by (metis prod.collapse fst_conv snd_conv)
  finally show ?thesis unfolding adj_mem by blast
qed

lemma half_constr_mem:
  assumes "in_place ks space (x, y, a, b, 1)"
  shows "BoolOr (map Pos (halves ks space x y a b)) [Pos (Place x y a b 1)]
           \<in> set (cell_constraints ks space)"
proof -
  from assms in_placeD [OF assms] obtain c where c: "c \<in> set space" "fst c = (x, y)"
    and ab: "(a, b) \<in> set ks" by auto
  have "BoolOr (map Pos (halves ks space (fst (fst c)) (snd (fst c)) (fst ab) (snd ab)))
           [Pos (Place (fst (fst c)) (snd (fst c)) (fst ab) (snd ab) 1)]
         \<in> set (cell_constraints ks space)"
    if "c \<in> set space" "ab \<in> set ks"
       "in_place ks space (fst (fst c), snd (fst c), fst ab, snd ab, 1)" for c ab
    using that unfolding cell_constraints_def split_def by (simp, blast)
  from this [OF c(1) ab] assms c(2) show ?thesis by simp
qed

lemma bool_or_holds:
  "holds \<rho> (BoolOr (map Pos vs) es) \<Longrightarrow> \<forall>e \<in> set es. lit_val \<rho> e \<Longrightarrow> \<exists>v \<in> set vs. \<rho> v"
  by auto

text \<open>
  C4. For every fix \<open>(a, b)\<close> and cell \<open>(x, y)\<close> with a head placement variable, the model
  holds a \<open>BoolOr\<close> over the tail placements of the same fix at the orthogonally adjacent
  cells of the space, enforced only when the head placement is true; so in every
  satisfying assignment a true head placement has the tail placement of the same fix
  true at some orthogonally adjacent cell.
\<close>

theorem tile_half_adjacency:
  assumes "solver_setup g space = Inr m" and "in_place (fix_nodes g) space (x, y, a, b, 1)"
  shows "BoolOr (map Pos (halves (fix_nodes g) space x y a b)) [Pos (Place x y a b 1)] \<in> set m
    \<and> (\<forall>v. v \<in> set (halves (fix_nodes g) space x y a b) \<longleftrightarrow>
          (\<exists>i j. v = Place i j a b 0 \<and> (i, j) \<in> fst ` set space \<and> \<bar>i - x\<bar> + \<bar>j - y\<bar> = 1
                 \<and> in_place (fix_nodes g) space (i, j, a, b, 0)))
    \<and> (sat \<rho> m \<longrightarrow> \<rho> (Place x y a b 1) \<longrightarrow>
          (\<exists>i j. (i, j) \<in> fst ` set space \<and> \<bar>i - x\<bar> + \<bar>j - y\<bar> = 1
                 \<and> in_place (fix_nodes g) space (i, j, a, b, 0) \<and> \<rho> (Place i j a b 0)))"
proof (intro conjI allI impI)
  show c: "BoolOr (map Pos (halves (fix_nodes g) space x y a b)) [Pos (Place x y a b 1)] \<in> set m"
    using half_constr_mem [OF assms(2)] setup_mem [OF assms(1)]
    by (simp add: set_placements_def)
  show "v \<in> set (halves (fix_nodes g) space x y a b) \<longleftrightarrow>
          (\<exists>i j. v = Place i j a b 0 \<and> (i, j) \<in> fst ` set space \<and> \<bar>i - x\<bar> + \<bar>j - y\<bar> = 1
                 \<and> in_place (fix_nodes g) space (i, j, a, b, 0))" for v
    by (rule halves_mem)
  assume "sat \<rho> m" "\<rho> (Place x y a b 1)"
  then have "\<exists>v \<in> set (halves (fix_nodes g) space x y a b). \<rho> v"
    using bool_or_holds [OF satD [OF _ c]] by simp
  then obtain v where "v \<in> set (halves (fix_nodes g) space x y a b)" "\<rho> v" by blast
  then show "\<exists>i j. (i, j) \<in> fst ` set space \<and> \<bar>i - x\<bar> + \<bar>j - y\<bar> = 1
                 \<and> in_place (fix_nodes g) space (i, j, a, b, 0) \<and> \<rho> (Place i j a b 0)"
    using halves_mem [of v "fix_nodes g" space x y a b] by blast
qed

lemma ring_place: "in_place (fix_nodes ring_graph) (grid 3 2) (1, 0, 0, 1, 1)"
  by code_simp

theorem tile_half_adjacency_witness:
  "solver_setup ring_graph (grid 3 2)
     = Inr (circuit_constraints ring_graph @ set_placements ring_graph (grid 3 2))
   \<and> in_place (fix_nodes ring_graph) (grid 3 2) (1, 0, 0, 1, 1)
   \<and> sat ring_solution (circuit_constraints ring_graph @ set_placements ring_graph (grid 3 2))
   \<and> ring_solution (Place 1 0 0 1 1)
   \<and> (\<exists>i j. (i, j) \<in> fst ` set (grid 3 2) \<and> \<bar>i - 1\<bar> + \<bar>j - 0\<bar> = 1
          \<and> in_place (fix_nodes ring_graph) (grid 3 2) (i, j, 0, 1, 0)
          \<and> ring_solution (Place i j 0 1 0))"
proof -
  have p: "ring_solution (Place 1 0 0 1 1)" by code_simp
  note t = tile_half_adjacency [OF ring_setup ring_place, of ring_solution]
  note u = t [THEN conjunct2, THEN conjunct2, THEN mp, OF ring_sat, THEN mp, OF p]
  from ring_setup ring_place ring_sat p u show ?thesis by (intro conjI)
qed


lemma dict_set_fresh: "k \<notin> fst ` set d \<Longrightarrow> dict_set d k v = d @ [(k, v)]"
  by (induction d k v rule: dict_set.induct) auto

lemma dict_fold_distinct:
  "distinct (map fst (d @ kvs)) \<Longrightarrow> foldl (\<lambda>d (k, v). dict_set d k v) d kvs = d @ kvs"
proof (induction kvs arbitrary: d)
  case (Cons kv kvs)
  obtain k v where kv: "kv = (k, v)" by (cases kv)
  from Cons.prems have "k \<notin> fst ` set d" by (auto simp: kv)
  then have "dict_set d k v = d @ [(k, v)]" by (rule dict_set_fresh)
  moreover have "distinct (map fst ((d @ [(k, v)]) @ kvs))" using Cons.prems by (simp add: kv)
  ultimately show ?case using Cons.IH [of "d @ [(k, v)]"] by (simp add: kv)
qed simp

lemma dict_of_distinct: "distinct (map fst kvs) \<Longrightarrow> dict_of kvs = kvs"
  using dict_fold_distinct [of "[]" kvs] by (simp add: dict_of_def)

lemma fst_tail_arcs: "map fst (tail_arcs d h tails) = tails"
proof -
  have "map fst (tail_arcs d h tails) = map snd (enumerate 0 tails)"
    by (simp add: tail_arcs_def split_def comp_def)
  then show ?thesis by simp
qed

lemma tail_vars_distinct: "distinct tails \<Longrightarrow> tail_vars d h tails = tail_arcs d h tails"
  unfolding tail_vars_def by (rule dict_of_distinct) (simp add: fst_tail_arcs)

lemma glue_constr_mem:
  assumes "(dd, fixes) \<in> set g" and "((a, b), tails) \<in> set fixes"
    and "((c, d), arc) \<in> set (tail_vars dd (a, b) tails)"
    and "in_place (fix_nodes g) space (x, y, a, b, 1)"
  shows "BoolOr (map Pos (halves (fix_nodes g) space x y c d)) [Pos (Place x y a b 1), Pos arc]
           \<in> set (glue_constraints g space)"
proof -
  from in_placeD [OF assms(4)] obtain cl where cl: "cl \<in> set space" "fst cl = (x, y)"
    by auto
  have "BoolOr (map Pos (halves (fix_nodes g) space (fst (fst cl)) (snd (fst cl))
                    (fst (fst ta)) (snd (fst ta))))
           [Pos (Place (fst (fst cl)) (snd (fst cl)) (fst (fst fe)) (snd (fst fe)) 1), Pos (snd ta)]
         \<in> set (glue_constraints g space)"
    if "ge \<in> set g" "fe \<in> set (snd ge)" "ta \<in> set (tail_vars (fst ge) (fst fe) (snd fe))"
       "cl \<in> set space"
       "in_place (fix_nodes g) space (fst (fst cl), snd (fst cl), fst (fst fe), snd (fst fe), 1)"
    for ge fe ta cl
    using that unfolding glue_constraints_def split_def by (simp, blast)
  from this [OF assms(1), of "((a, b), tails)" "((c, d), arc)" cl] assms(2,3,4) cl
  show ?thesis by simp
qed

text \<open>
  C1 (as the code has it). For every arc from head-fix \<open>(a, b)\<close> to tail-fix \<open>(c, d)\<close> kept
  in \<open>tail_vars\<close> (every arc created, when the tails list has no duplicate) and every cell
  \<open>(x, y)\<close> with a head placement variable (role 1) of \<open>(a, b)\<close>, the model holds a
  \<open>BoolOr\<close> over the tail placements (role 0) of \<open>(c, d)\<close> at the orthogonally adjacent
  cells, enforced only under both that head placement and the arc. So when the arc is
  used and the head placement of \<open>(a, b)\<close> at \<open>(x, y)\<close> is true, the tail placement of
  \<open>(c, d)\<close> is true at some adjacent cell: the tail-fix's tail placement (the end showing
  its leading value \<open>c\<close>) lies next to the head-fix's head placement (the end showing its
  trailing value \<open>b\<close>).
\<close>

theorem glue_arc_to_placement:
  assumes "solver_setup g space = Inr m"
    and "(dd, fixes) \<in> set g" and "((a, b), tails) \<in> set fixes"
    and "((c, d), arc) \<in> set (tail_vars dd (a, b) tails)"
    and "in_place (fix_nodes g) space (x, y, a, b, 1)"
  shows "BoolOr (map Pos (halves (fix_nodes g) space x y c d)) [Pos (Place x y a b 1), Pos arc] \<in> set m
    \<and> (sat \<rho> m \<longrightarrow> \<rho> arc \<longrightarrow> \<rho> (Place x y a b 1) \<longrightarrow>
          (\<exists>i j. (i, j) \<in> fst ` set space \<and> \<bar>i - x\<bar> + \<bar>j - y\<bar> = 1
                 \<and> in_place (fix_nodes g) space (i, j, c, d, 0) \<and> \<rho> (Place i j c d 0)))
    \<and> (distinct tails \<longrightarrow> tail_vars dd (a, b) tails = tail_arcs dd (a, b) tails)"
proof (intro conjI impI)
  show c: "BoolOr (map Pos (halves (fix_nodes g) space x y c d)) [Pos (Place x y a b 1), Pos arc] \<in> set m"
    using glue_constr_mem [OF assms(2-5)] setup_mem [OF assms(1)]
    by (simp add: set_placements_def)
  show "tail_vars dd (a, b) tails = tail_arcs dd (a, b) tails" if "distinct tails"
    using that by (rule tail_vars_distinct)
  assume "sat \<rho> m" "\<rho> arc" "\<rho> (Place x y a b 1)"
  then have "\<exists>v \<in> set (halves (fix_nodes g) space x y c d). \<rho> v"
    using bool_or_holds [OF satD [OF _ c]] by simp
  then obtain v where "v \<in> set (halves (fix_nodes g) space x y c d)" "\<rho> v" by blast
  then show "\<exists>i j. (i, j) \<in> fst ` set space \<and> \<bar>i - x\<bar> + \<bar>j - y\<bar> = 1
                 \<and> in_place (fix_nodes g) space (i, j, c, d, 0) \<and> \<rho> (Place i j c d 0)"
    using halves_mem [of v "fix_nodes g" space x y c d] by blast
qed

theorem glue_arc_to_placement_witness:
  "solver_setup ring_graph (grid 3 2)
     = Inr (circuit_constraints ring_graph @ set_placements ring_graph (grid 3 2))
   \<and> ((1, 0), [((0, 1), [(1, 2)])]) \<in> set ring_graph
   \<and> ((1, 2), Arc (1, 0) (0, 1) 0) \<in> set (tail_vars (1, 0) (0, 1) [(1, 2)])
   \<and> in_place (fix_nodes ring_graph) (grid 3 2) (1, 0, 0, 1, 1)
   \<and> sat ring_solution (circuit_constraints ring_graph @ set_placements ring_graph (grid 3 2))
   \<and> ring_solution (Arc (1, 0) (0, 1) 0) \<and> ring_solution (Place 1 0 0 1 1)
   \<and> (\<exists>i j. (i, j) \<in> fst ` set (grid 3 2) \<and> \<bar>i - 1\<bar> + \<bar>j - 0\<bar> = 1
          \<and> in_place (fix_nodes ring_graph) (grid 3 2) (i, j, 1, 2, 0)
          \<and> ring_solution (Place i j 1 2 0))"
proof -
  have g: "((1, 0), [((0, 1), [(1, 2)])]) \<in> set ring_graph" by code_simp
  have f: "((0, 1), [(1, 2)]) \<in> set [((0::int, 1::int), [(1::int, 2::int)])]" by simp
  have t: "((1, 2), Arc (1, 0) (0, 1) 0) \<in> set (tail_vars (1, 0) (0, 1) [(1, 2)])" by code_simp
  have a: "ring_solution (Arc (1, 0) (0, 1) 0)" and p: "ring_solution (Place 1 0 0 1 1)"
    by code_simp+
  note u = glue_arc_to_placement [OF ring_setup g f t ring_place, of ring_solution,
      THEN conjunct2, THEN conjunct1, THEN mp, OF ring_sat, THEN mp, OF a, THEN mp, OF p]
  from ring_setup g t ring_place ring_sat a p u show ?thesis by (intro conjI)
qed

text \<open>
  The roles the other way round are not forced. In the solution of the ring instance the
  arc from \<open>(0, 1)\<close> to \<open>(1, 2)\<close> is used and the head placement of \<open>(0, 1)\<close> at \<open>(1, 0)\<close>
  is true, yet the only tail placement of \<open>(0, 1)\<close> is at \<open>(0, 0)\<close> and the only head
  placement of \<open>(1, 2)\<close> is at \<open>(2, 1)\<close>, two cells that are not adjacent.
\<close>

theorem glue_roles_counterexample:
  "solver_setup ring_graph (grid 3 2)
     = Inr (circuit_constraints ring_graph @ set_placements ring_graph (grid 3 2))
   \<and> sat ring_solution (circuit_constraints ring_graph @ set_placements ring_graph (grid 3 2))
   \<and> ring_solution (Arc (1, 0) (0, 1) 0) \<and> ring_solution (Place 1 0 0 1 1)
   \<and> filter ring_solution (fix_vars (fix_nodes ring_graph) (grid 3 2) 0 1 0) = [Place 0 0 0 1 0]
   \<and> filter ring_solution (fix_vars (fix_nodes ring_graph) (grid 3 2) 1 2 1) = [Place 2 1 1 2 1]
   \<and> \<bar>2 - 0\<bar> + \<bar>1 - 0\<bar> \<noteq> (1::int)"
proof -
  have "ring_solution (Arc (1, 0) (0, 1) 0)" "ring_solution (Place 1 0 0 1 1)"
    "filter ring_solution (fix_vars (fix_nodes ring_graph) (grid 3 2) 0 1 0) = [Place 0 0 0 1 0]"
    "filter ring_solution (fix_vars (fix_nodes ring_graph) (grid 3 2) 1 2 1) = [Place 2 1 1 2 1]"
    by code_simp+
  with ring_setup ring_sat show ?thesis by simp
qed

lemma vsum_append [simp]: "vsum \<rho> (xs @ ys) = vsum \<rho> xs + vsum \<rho> ys"
  by (simp add: vsum_def)

lemma vsum_concat: "vsum \<rho> (concat xss) = (\<Sum>xs\<leftarrow>xss. vsum \<rho> xs)"
  by (induction xss) simp_all

lemma sum_list_swap:
  "(\<Sum>x\<leftarrow>xs. \<Sum>y\<leftarrow>ys. (f x y :: int)) = (\<Sum>y\<leftarrow>ys. \<Sum>x\<leftarrow>xs. f x y)"
  by (induction xs) (simp_all add: sum_list_addf)

lemma vsum_cell_vars:
  "vsum \<rho> (cell_vars ks space x y) = (\<Sum>ab\<leftarrow>ks. \<Sum>f\<leftarrow>[0, 1]. pval \<rho> ks space x y (fst ab) (snd ab) f)"
proof -
  have "cell_vars ks space x y =
      concat (map (\<lambda>ab. concat (map (\<lambda>f. if in_place ks space (x, y, fst ab, snd ab, f)
             then [Place x y (fst ab) (snd ab) f] else []) [0, 1])) ks)"
    by (simp add: cell_vars_def split_def)
  then show ?thesis
    by (simp add: vsum_concat comp_def pval_def)
qed

lemma vsum_fix_vars:
  "vsum \<rho> (fix_vars ks space a b f) = (\<Sum>c\<leftarrow>space. pval \<rho> ks space (fst (fst c)) (snd (fst c)) a b f)"
proof -
  have "fix_vars ks space a b f =
      concat (map (\<lambda>c. if in_place ks space (fst (fst c), snd (fst c), a, b, f)
             then [Place (fst (fst c)) (snd (fst c)) a b f] else []) space)"
    by (simp add: fix_vars_def split_def)
  then show ?thesis
    by (simp add: vsum_concat comp_def pval_def)
qed

lemma vsum_map_Fix: "vsum \<rho> (map Fix ks) = (\<Sum>ab\<leftarrow>ks. vsum \<rho> [Fix ab])"
  by (induction ks) (simp_all add: vsum_def)

lemma cover_count:
  assumes "solver_setup g space = Inr m" and "sat \<rho> m"
  shows "int (length space) = 2 * vsum \<rho> (map Fix (fix_nodes g))"
proof -
  let ?ks = "fix_nodes g"
  let ?p = "pval \<rho> ?ks space"
  have cell: "vsum \<rho> (cell_vars ?ks space (fst (fst c)) (snd (fst c))) = 1" if "c \<in> set space" for c
  proof -
    have "LinEq (cell_vars ?ks space (fst (fst c)) (snd (fst c))) [] 1 \<in> set (set_placements g space)"
      using cell_constr_mem [of "fst (fst c)" "snd (fst c)" "snd c" space ?ks] that
      by (simp add: set_placements_def)
    from satD [OF assms(2) setup_mem [OF assms(1) this]] show ?thesis by simp
  qed
  have fx: "vsum \<rho> (fix_vars ?ks space (fst ab) (snd ab) f) = vsum \<rho> [Fix ab]"
    if "ab \<in> set ?ks" "f = 0 \<or> f = 1" for ab f
  proof -
    have "LinEq (fix_vars ?ks space (fst ab) (snd ab) f) [Fix ab] 0 \<in> set (set_placements g space)"
      using fix_constr_mem [of "fst ab" "snd ab" ?ks f space] that
      by (simp add: set_placements_def)
    from satD [OF assms(2) setup_mem [OF assms(1) this]] show ?thesis by simp
  qed
  have "int (length space) = (\<Sum>c\<leftarrow>space. 1)"
    by (simp add: sum_list_triv)
  also have "\<dots> = (\<Sum>c\<leftarrow>space. vsum \<rho> (cell_vars ?ks space (fst (fst c)) (snd (fst c))))"
    using cell by (intro arg_cong [where f = sum_list] map_cong) simp_all
  also have "\<dots> = (\<Sum>c\<leftarrow>space. \<Sum>ab\<leftarrow>?ks. \<Sum>f\<leftarrow>[0, 1]. ?p (fst (fst c)) (snd (fst c)) (fst ab) (snd ab) f)"
    by (simp add: vsum_cell_vars)
  also have "\<dots> = (\<Sum>ab\<leftarrow>?ks. \<Sum>c\<leftarrow>space. \<Sum>f\<leftarrow>[0, 1]. ?p (fst (fst c)) (snd (fst c)) (fst ab) (snd ab) f)"
    by (rule sum_list_swap)
  also have "\<dots> = (\<Sum>ab\<leftarrow>?ks. (\<Sum>c\<leftarrow>space. ?p (fst (fst c)) (snd (fst c)) (fst ab) (snd ab) 0) + (\<Sum>c\<leftarrow>space. ?p (fst (fst c)) (snd (fst c)) (fst ab) (snd ab) 1))"
    by (simp add: sum_list_addf)
  also have "\<dots> = (\<Sum>ab\<leftarrow>?ks. vsum \<rho> (fix_vars ?ks space (fst ab) (snd ab) 0)
                        + vsum \<rho> (fix_vars ?ks space (fst ab) (snd ab) 1))"
    by (simp add: vsum_fix_vars)
  also have "\<dots> = (\<Sum>ab\<leftarrow>?ks. 2 * vsum \<rho> [Fix ab])"
    using fx by (intro arg_cong [where f = sum_list] map_cong) simp_all
  also have "\<dots> = 2 * vsum \<rho> (map Fix ?ks)"
    by (simp add: vsum_map_Fix sum_list_const_mult)
  finally show ?thesis .
qed

text \<open>
  C9. A space with an odd number of cells has no solution, whatever the graph and the
  labels: the per-cell constraints make the true placements as many as the cells, the
  per-fix constraints make them twice the active fixes, so the number of cells of a
  satisfiable model is even.
\<close>

theorem odd_cells_infeasible:
  assumes "solver_setup g space = Inr m" and "odd (length space)"
  shows "\<not> sat \<rho> m"
proof
  assume "sat \<rho> m"
  from cover_count [OF assms(1) this] have "even (int (length space))" by simp
  with assms(2) show False by simp
qed

theorem odd_cells_infeasible_witness:
  "solver_setup (DominoDigraph 1) (grid 5 1)
     = Inr (circuit_constraints (DominoDigraph 1) @ set_placements (DominoDigraph 1) (grid 5 1))
   \<and> odd (length (grid 5 1))
   \<and> \<not> sat (\<lambda>v. False)
        (circuit_constraints (DominoDigraph 1) @ set_placements (DominoDigraph 1) (grid 5 1))"
proof -
  have s: "solver_setup (DominoDigraph 1) (grid 5 1)
     = Inr (circuit_constraints (DominoDigraph 1) @ set_placements (DominoDigraph 1) (grid 5 1))"
    by code_simp
  have o: "odd (length (grid 5 1))" by code_simp
  from s o odd_cells_infeasible [OF s o, of "\<lambda>v. False"] show ?thesis by (intro conjI)
qed


lemma set_dict_keys [simp]: "set (dict_keys xs) = set xs"
  by (induction xs) auto

lemma distinct_dict_keys [simp]: "distinct (dict_keys xs)"
  by (induction xs) (auto simp: distinct_removeAll)

lemma fix_nodes_mem:
  "h \<in> set (fix_nodes g) \<longleftrightarrow> (\<exists>ge \<in> set g. \<exists>fe \<in> set (snd ge). fst fe = h)"
  by (auto simp: fix_nodes_def split_def)

lemma idx_less: "k \<in> set ks \<Longrightarrow> idx ks k < length ks"
  unfolding idx_def by (induction ks) auto

lemma nth_idx: "k \<in> set ks \<Longrightarrow> ks ! idx ks k = k"
  unfolding idx_def by (induction ks) auto

lemma idx_inj: "k \<in> set ks \<Longrightarrow> k' \<in> set ks \<Longrightarrow> idx ks k = idx ks k' \<Longrightarrow> k = k'"
  by (metis nth_idx)

lemma tail_arcs_mem: "ta \<in> set (tail_arcs d h tails) \<Longrightarrow> fst ta \<in> set tails"
  using fst_tail_arcs [of d h tails] by (metis image_eqI list.set_map)

lemma d_arcs_mem:
  "a \<in> set (d_arcs ks d fixes) \<longleftrightarrow>
     (\<exists>fe \<in> set fixes. \<exists>ta \<in> set (tail_arcs d (fst fe) (snd fe)).
        a = (idx ks (fst fe), idx ks (fst ta), snd ta))"
  by (auto simp: d_arcs_def split_def)

lemma d_loops_mem:
  "a \<in> set (d_loops ks d fixes) \<longleftrightarrow>
     (1 < length fixes \<and> (\<exists>fe \<in> set fixes. a = (idx ks (fst fe), idx ks (fst fe), Loop d (fst fe))))"
  by (auto simp: d_loops_def split_def)

lemma arcs_of_mem:
  "a \<in> set (arcs_of g) \<longleftrightarrow> (\<exists>ge \<in> set g. a \<in> set (d_arcs (fix_nodes g) (fst ge) (snd ge)))"
  by (auto simp: arcs_of_def split_def)

lemma loops_of_mem:
  "a \<in> set (loops_of g) \<longleftrightarrow> (\<exists>ge \<in> set g. a \<in> set (d_loops (fix_nodes g) (fst ge) (snd ge)))"
  by (auto simp: loops_of_def split_def)

lemma length_filter_disj:
  "(\<And>x. \<not> (Q x \<and> R x)) \<Longrightarrow>
   length (filter Q xs) + length (filter R xs) = length (filter (\<lambda>x. Q x \<or> R x) xs)"
  by (induction xs) auto

lemma count_by_head:
  "distinct ns \<Longrightarrow>
   (\<Sum>n\<leftarrow>ns. length [a \<leftarrow> A. f a = n \<and> P a]) = length [a \<leftarrow> A. f a \<in> set ns \<and> P a]"
proof (induction ns)
  case (Cons n ns)
  have "length [a \<leftarrow> A. f a = n \<and> P a] + length [a \<leftarrow> A. f a \<in> set ns \<and> P a]
      = length [a \<leftarrow> A. (f a = n \<and> P a) \<or> (f a \<in> set ns \<and> P a)]"
    using Cons.prems by (intro length_filter_disj) auto
  also have "\<dots> = length [a \<leftarrow> A. f a \<in> set (n # ns) \<and> P a]"
    by (intro arg_cong [where f = length] filter_cong) auto
  finally show ?case using Cons by simp
qed simp

lemma circuit_true_count:
  assumes "circuit_ok \<rho> A"
  shows "vsum \<rho> (map (\<lambda>a. snd (snd a)) A) = int (card (fst ` set A \<union> (\<lambda>a. fst (snd a)) ` set A))"
proof -
  let ?ns = "circuit_nodes A"
  have ns: "distinct ?ns" "set ?ns = fst ` set A \<union> (\<lambda>a. fst (snd a)) ` set A"
    by (simp_all add: circuit_nodes_def)
  have "length (filter \<rho> (map (\<lambda>a. snd (snd a)) A)) = length [a \<leftarrow> A. \<rho> (snd (snd a))]"
    by (simp add: filter_map comp_def)
  also have "\<dots> = length [a \<leftarrow> A. fst a \<in> set ?ns \<and> \<rho> (snd (snd a))]"
    using ns(2) by (intro arg_cong [where f = length] filter_cong) auto
  also have "\<dots> = (\<Sum>n\<leftarrow>?ns. length [a \<leftarrow> A. fst a = n \<and> \<rho> (snd (snd a))])"
    using count_by_head [OF ns(1), of fst "\<lambda>a. \<rho> (snd (snd a))" A] by simp
  also have "\<dots> = (\<Sum>n\<leftarrow>?ns. 1)"
    using assms by (intro arg_cong [where f = sum_list] map_cong) (simp_all add: circuit_ok_def out_true_def)
  also have "\<dots> = length ?ns" by (simp add: sum_list_triv)
  also have "\<dots> = card (set ?ns)" using ns(1) by (simp add: distinct_card)
  finally show ?thesis by (simp add: vsum_def ns(2))
qed


lemma circuit_mem:
  "solver_setup g space = Inr m \<Longrightarrow> c \<in> set (circuit_constraints g) \<Longrightarrow> c \<in> set m"
  by (auto dest: setup_Inr)

lemma tails_are_nodes:
  assumes "solver_setup g space = Inr m" "ge \<in> set g" "fe \<in> set (snd ge)" "t \<in> set (snd fe)"
  shows "t \<in> set (fix_nodes g)"
proof -
  define ok where
    "ok \<longleftrightarrow> (\<forall>(d, fixes) \<in> set g. \<forall>(h, tails) \<in> set fixes. \<forall>t \<in> set tails. t \<in> set (fix_nodes g))"
  have "set_circuit g = (if ok then Inr (circuit_constraints g) else Inl KeyError)"
    by (simp add: set_circuit_def ok_def)
  with assms(1) have ok by (cases ok) (simp_all add: solver_setup_def)
  then have "\<forall>ge \<in> set g. \<forall>fe \<in> set (snd ge). \<forall>t \<in> set (snd fe). t \<in> set (fix_nodes g)"
    by (simp add: ok_def split_def)
  with assms(2-4) show ?thesis by blast
qed

lemma piece_sum_mem:
  "ge \<in> set g \<Longrightarrow>
   LinEq (map (\<lambda>a. snd (snd a)) (d_arcs (fix_nodes g) (fst ge) (snd ge))) [] 1
     \<in> set (circuit_constraints g)"
  by (auto simp: circuit_constraints_def split_def)

lemma global_sum_mem:
  "LinEq (map (\<lambda>a. snd (snd a)) (arcs_of g)) [] (int (length g)) \<in> set (circuit_constraints g)"
  by (simp add: circuit_constraints_def)

lemma circuit_constr_mem: "Circuit (arcs_of g @ loops_of g) \<in> set (circuit_constraints g)"
  by (simp add: circuit_constraints_def)

lemma circuit_node_set:
  assumes s: "solver_setup g space = Inr m" and sat: "sat \<rho> m"
  shows "fst ` set (arcs_of g @ loops_of g) \<union> (\<lambda>a. fst (snd a)) ` set (arcs_of g @ loops_of g)
           = idx (fix_nodes g) ` set (fix_nodes g)" (is "?N = ?I")
proof (intro equalityI subsetI)
  fix n assume "n \<in> ?N"
  then obtain a where a: "a \<in> set (arcs_of g) \<or> a \<in> set (loops_of g)"
    and n: "n = fst a \<or> n = fst (snd a)" by auto
  from a show "n \<in> ?I"
  proof
    assume "a \<in> set (arcs_of g)"
    then obtain ge fe ta where m: "ge \<in> set g" "fe \<in> set (snd ge)"
      "ta \<in> set (tail_arcs (fst ge) (fst fe) (snd fe))"
      and e: "a = (idx (fix_nodes g) (fst fe), idx (fix_nodes g) (fst ta), snd ta)"
      unfolding arcs_of_mem d_arcs_mem by blast
    have "fst fe \<in> set (fix_nodes g)" using m(1,2) unfolding fix_nodes_mem by blast
    moreover have "fst ta \<in> set (fix_nodes g)"
      using tails_are_nodes [OF s m(1,2)] tail_arcs_mem [OF m(3)] by blast
    ultimately show ?thesis using n e by auto
  next
    assume "a \<in> set (loops_of g)"
    then obtain ge fe where m: "ge \<in> set g" "fe \<in> set (snd ge)"
      and e: "a = (idx (fix_nodes g) (fst fe), idx (fix_nodes g) (fst fe), Loop (fst ge) (fst fe))"
      unfolding loops_of_mem d_loops_mem by blast
    have "fst fe \<in> set (fix_nodes g)" using m(1,2) unfolding fix_nodes_mem by blast
    then show ?thesis using n e by auto
  qed
next
  fix n assume "n \<in> ?I"
  then obtain h where h: "h \<in> set (fix_nodes g)" "n = idx (fix_nodes g) h" by auto
  then obtain ge fe where m: "ge \<in> set g" "fe \<in> set (snd ge)" "fst fe = h"
    unfolding fix_nodes_mem by blast
  show "n \<in> ?N"
  proof (cases "1 < length (snd ge)")
    case True
    then have "(n, n, Loop (fst ge) h) \<in> set (loops_of g)"
      using m h(2) unfolding loops_of_mem d_loops_mem by blast
    then show ?thesis by force
  next
    case False
    with m(2) have one: "snd ge = [fe]"
      by (cases "snd ge") (auto simp: not_less)
    have "vsum \<rho> (map (\<lambda>a. snd (snd a)) (d_arcs (fix_nodes g) (fst ge) (snd ge))) = 1"
      using satD [OF sat circuit_mem [OF s piece_sum_mem [OF m(1)]]] by simp
    then have "d_arcs (fix_nodes g) (fst ge) (snd ge) \<noteq> []"
      by (auto simp: vsum_def)
    then obtain a where a: "a \<in> set (d_arcs (fix_nodes g) (fst ge) (snd ge))"
      by (cases "d_arcs (fix_nodes g) (fst ge) (snd ge)") auto
    then have "fst a = n"
      unfolding d_arcs_mem one using m(3) h(2) by auto
    moreover have "a \<in> set (arcs_of g)"
      using a m(1) unfolding arcs_of_mem by blast
    ultimately show ?thesis by force
  qed
qed

lemma circuit_counting_sat:
  assumes s: "solver_setup g space = Inr m" and sat: "sat \<rho> m"
  shows "vsum \<rho> (map (\<lambda>a. snd (snd a)) (arcs_of g)) = int (length g)"
    and "vsum \<rho> (map (\<lambda>a. snd (snd a)) (arcs_of g)) + vsum \<rho> (map (\<lambda>a. snd (snd a)) (loops_of g))
           = int (length (fix_nodes g))"
proof -
  show "vsum \<rho> (map (\<lambda>a. snd (snd a)) (arcs_of g)) = int (length g)"
    using satD [OF sat circuit_mem [OF s global_sum_mem]] by simp
  have "circuit_ok \<rho> (arcs_of g @ loops_of g)"
    using satD [OF sat circuit_mem [OF s circuit_constr_mem]] by simp
  from circuit_true_count [OF this]
  have "vsum \<rho> (map (\<lambda>a. snd (snd a)) (arcs_of g @ loops_of g))
          = int (card (idx (fix_nodes g) ` set (fix_nodes g)))"
    unfolding circuit_node_set [OF s sat] .
  have "inj_on (idx (fix_nodes g)) (set (fix_nodes g))"
    by (auto intro!: inj_onI dest: idx_inj)
  moreover have "distinct (fix_nodes g)" by (simp add: fix_nodes_def)
  ultimately have "card (idx (fix_nodes g) ` set (fix_nodes g)) = length (fix_nodes g)"
    by (simp only: card_image distinct_card)
  with \<open>vsum \<rho> (map (\<lambda>a. snd (snd a)) (arcs_of g @ loops_of g))
          = int (card (idx (fix_nodes g) ` set (fix_nodes g)))\<close>
  have "vsum \<rho> (map (\<lambda>a. snd (snd a)) (arcs_of g @ loops_of g)) = int (length (fix_nodes g))"
    by simp
  then show "vsum \<rho> (map (\<lambda>a. snd (snd a)) (arcs_of g))
      + vsum \<rho> (map (\<lambda>a. snd (snd a)) (loops_of g)) = int (length (fix_nodes g))"
    by simp
qed

lemma arcs_no_self_loop:
  assumes s: "solver_setup g space = Inr m"
    and n: "\<forall>(d, fixes) \<in> set g. \<forall>(h, tails) \<in> set fixes. h \<notin> set tails"
    and a: "a \<in> set (arcs_of g)"
  shows "fst a \<noteq> fst (snd a)"
proof -
  from a obtain ge fe ta where m: "ge \<in> set g" "fe \<in> set (snd ge)"
      "ta \<in> set (tail_arcs (fst ge) (fst fe) (snd fe))"
      and e: "a = (idx (fix_nodes g) (fst fe), idx (fix_nodes g) (fst ta), snd ta)"
    unfolding arcs_of_mem d_arcs_mem by blast
  have t: "fst ta \<in> set (snd fe)" by (rule tail_arcs_mem [OF m(3)])
  have "\<forall>ge \<in> set g. \<forall>fe \<in> set (snd ge). fst fe \<notin> set (snd fe)"
    using n by (simp add: split_def)
  with m(1,2) have "fst fe \<notin> set (snd fe)" by blast
  with t have "fst fe \<noteq> fst ta" by auto
  moreover have "fst fe \<in> set (fix_nodes g)" using m(1,2) unfolding fix_nodes_mem by blast
  moreover have "fst ta \<in> set (fix_nodes g)" using tails_are_nodes [OF s m(1,2) t] .
  ultimately show ?thesis using idx_inj e by fastforce
qed


lemma distinct_concat_part:
  "distinct (concat (map f xs)) \<Longrightarrow> distinct (f x) \<or> x \<notin> set xs"
  by (induction xs) auto



lemma concat_const_guard:
  "concat (map (\<lambda>x. if P then [f x] else []) xs) = (if P then map f xs else [])"
  by (induction xs) auto

lemma d_loops_alt:
  "d_loops ks d fs =
     (if 1 < length fs then map (\<lambda>fe. (idx ks (fst fe), idx ks (fst fe), Loop d (fst fe))) fs
      else [])"
  by (simp add: d_loops_def split_def concat_const_guard)







lemma mirror_setup:
  "solver_setup mirror_graph (grid 3 2)
     = Inr (circuit_constraints mirror_graph @ set_placements mirror_graph (grid 3 2))"
proof -
  have "set_circuit mirror_graph = Inr (circuit_constraints mirror_graph)"
    by code_simp
  then show ?thesis by (simp add: solver_setup_def)
qed

lemma mirror_sat:
  "sat mirror_solution (circuit_constraints mirror_graph @ set_placements mirror_graph (grid 3 2))"
  by code_simp

lemma tail_arcs_nth:
  "tail_arcs d h tails = map (\<lambda>k. (tails ! k, Arc d h k)) [0..<length tails]"
proof -
  have "enumerate 0 tails = map (\<lambda>k. (k, tails ! k)) [0..<length tails]"
    by (rule nth_equalityI) (simp_all add: nth_enumerate_eq)
  then show ?thesis by (simp add: tail_arcs_def comp_def)
qed

lemma d_arcs_vars:
  "map (\<lambda>a. snd (snd a)) (d_arcs ks d fs) = [Arc d h k. (h, tails) \<leftarrow> fs, k \<leftarrow> [0..<length tails]]"
  by (induction fs) (auto simp: d_arcs_def tail_arcs_nth comp_def split_def)

lemma arcs_of_vars:
  "map (\<lambda>a. snd (snd a)) (arcs_of g)
     = [Arc d h k. (d, fs) \<leftarrow> g, (h, tails) \<leftarrow> fs, k \<leftarrow> [0..<length tails]]"
proof -
  have "map (\<lambda>a. snd (snd a)) (concat (map (\<lambda>ge. d_arcs ks (fst ge) (snd ge)) gs))
     = concat (map (\<lambda>ge. [Arc (fst ge) h k. (h, tails) \<leftarrow> snd ge, k \<leftarrow> [0..<length tails]]) gs)"
    for ks gs
    by (induction gs) (simp_all add: d_arcs_vars)
  from this [of "fix_nodes g" g] show ?thesis
    by (simp add: arcs_of_def split_def)
qed

lemma loops_of_vars:
  "map (\<lambda>a. snd (snd a)) (loops_of g) = [Loop d h. (d, fs) \<leftarrow> g, (h, tails) \<leftarrow> fs, 1 < length fs]"
proof -
  have "map (\<lambda>a. snd (snd a)) (concat (map (\<lambda>ge. d_loops ks (fst ge) (snd ge)) gs))
     = concat (map (\<lambda>ge. concat (map (\<lambda>fe. if 1 < length (snd ge) then [Loop (fst ge) (fst fe)] else [])
          (snd ge))) gs)"
    for ks gs
    by (induction gs) (simp_all add: d_loops_alt concat_const_guard comp_def)
  from this [of "fix_nodes g" g] show ?thesis
    by (simp add: loops_of_def split_def)
qed

lemma tail_arcs_iff:
  "ta \<in> set (tail_arcs d h tails) \<longleftrightarrow> (\<exists>k < length tails. ta = (tails ! k, Arc d h k))"
  by (auto simp: tail_arcs_nth)

lemma d_arcs_iff:
  "a \<in> set (d_arcs ks d fs) \<longleftrightarrow>
     (\<exists>fe \<in> set fs. \<exists>k < length (snd fe).
        a = (idx ks (fst fe), idx ks (snd fe ! k), Arc d (fst fe) k))"
proof
  assume "a \<in> set (d_arcs ks d fs)"
  then obtain fe ta where fe: "fe \<in> set fs" and ta: "ta \<in> set (tail_arcs d (fst fe) (snd fe))"
    and a: "a = (idx ks (fst fe), idx ks (fst ta), snd ta)"
    unfolding d_arcs_mem by blast
  from ta obtain k where k: "k < length (snd fe)" "ta = (snd fe ! k, Arc d (fst fe) k)"
    unfolding tail_arcs_iff by blast
  have "a = (idx ks (fst fe), idx ks (snd fe ! k), Arc d (fst fe) k)"
    using a k(2) by simp
  with fe k(1) show "\<exists>fe \<in> set fs. \<exists>k < length (snd fe).
        a = (idx ks (fst fe), idx ks (snd fe ! k), Arc d (fst fe) k)"
    by blast
next
  assume "\<exists>fe \<in> set fs. \<exists>k < length (snd fe).
        a = (idx ks (fst fe), idx ks (snd fe ! k), Arc d (fst fe) k)"
  then obtain fe k where fe: "fe \<in> set fs" and k: "k < length (snd fe)"
    and a: "a = (idx ks (fst fe), idx ks (snd fe ! k), Arc d (fst fe) k)"
    by blast
  have "(snd fe ! k, Arc d (fst fe) k) \<in> set (tail_arcs d (fst fe) (snd fe))"
    unfolding tail_arcs_iff using k by blast
  moreover have "a = (idx ks (fst fe), idx ks (fst (snd fe ! k, Arc d (fst fe) k)),
      snd (snd fe ! k, Arc d (fst fe) k))"
    using a by simp
  ultimately show "a \<in> set (d_arcs ks d fs)"
    unfolding d_arcs_mem using fe by blast
qed

lemma arcs_of_iff:
  "(i, j, v) \<in> set (arcs_of g) \<longleftrightarrow>
     (\<exists>(d, fs) \<in> set g. \<exists>(h, tails) \<in> set fs. \<exists>k < length tails.
        i = idx (fix_nodes g) h \<and> j = idx (fix_nodes g) (tails ! k) \<and> v = Arc d h k)"
  unfolding arcs_of_mem d_arcs_iff by (simp add: split_def)

lemma loops_of_iff:
  "(i, j, v) \<in> set (loops_of g) \<longleftrightarrow>
     (\<exists>(d, fs) \<in> set g. 1 < length fs \<and>
        (\<exists>(h, tails) \<in> set fs. i = idx (fix_nodes g) h \<and> j = idx (fix_nodes g) h \<and> v = Loop d h))"
proof -
  have "(i, j, v) \<in> set (loops_of g) \<longleftrightarrow>
     (\<exists>ge \<in> set g. 1 < length (snd ge) \<and>
        (\<exists>fe \<in> set (snd ge). i = idx (fix_nodes g) (fst fe) \<and> j = idx (fix_nodes g) (fst fe)
            \<and> v = Loop (fst ge) (fst fe)))"
    unfolding loops_of_mem d_loops_mem by fastforce
  then show ?thesis by (simp add: split_def)
qed

lemma set_fix_nodes: "set (fix_nodes g) = (\<Union>(d, fs) \<in> set g. fst ` set fs)"
  by (auto simp: fix_nodes_def split_def)

text \<open>
  C5. For every piece the model holds the constraint that the variables of all arcs
  leaving its fixes (one variable \<open>Arc d h k\<close> for each fix \<open>h\<close> of the piece and each
  position \<open>k\<close> of the tails list of \<open>h\<close>) sum to 1, and the constraint that the arc
  variables of all pieces sum to the number of pieces. The list handed to \<open>AddCircuit\<close>
  is these arcs, \<open>Arc d h k\<close> running from the node of \<open>h\<close> to the node of the \<open>k\<close>-th tail,
  followed by the self-loops \<open>Loop d h\<close> on the fixes of the pieces with more than one
  fix; the arcs hold no self-loop when no fix lists itself as a tail. \<open>fix_nodes\<close> lists
  every fix of the graph once. In every satisfying assignment the used arcs are as many
  as the pieces, and the used arcs and the true self-loops together are as many as the
  fix-nodes.
\<close>

theorem circuit_counting:
  assumes "solver_setup g space = Inr m"
  shows "(\<forall>(d, fs) \<in> set g.
            LinEq [Arc d h k. (h, tails) \<leftarrow> fs, k \<leftarrow> [0..<length tails]] [] 1 \<in> set m)
    \<and> LinEq [Arc d h k. (d, fs) \<leftarrow> g, (h, tails) \<leftarrow> fs, k \<leftarrow> [0..<length tails]] []
            (int (length g)) \<in> set m
    \<and> Circuit (arcs_of g @ loops_of g) \<in> set m
    \<and> (\<forall>i j v. (i, j, v) \<in> set (arcs_of g) \<longleftrightarrow>
          (\<exists>(d, fs) \<in> set g. \<exists>(h, tails) \<in> set fs. \<exists>k < length tails.
             i = idx (fix_nodes g) h \<and> j = idx (fix_nodes g) (tails ! k) \<and> v = Arc d h k))
    \<and> (\<forall>i j v. (i, j, v) \<in> set (loops_of g) \<longleftrightarrow>
          (\<exists>(d, fs) \<in> set g. 1 < length fs \<and>
             (\<exists>(h, tails) \<in> set fs.
                i = idx (fix_nodes g) h \<and> j = idx (fix_nodes g) h \<and> v = Loop d h)))
    \<and> map (\<lambda>a. snd (snd a)) (arcs_of g)
          = [Arc d h k. (d, fs) \<leftarrow> g, (h, tails) \<leftarrow> fs, k \<leftarrow> [0..<length tails]]
    \<and> map (\<lambda>a. snd (snd a)) (loops_of g)
          = [Loop d h. (d, fs) \<leftarrow> g, (h, tails) \<leftarrow> fs, 1 < length fs]
    \<and> ((\<forall>(d, fs) \<in> set g. \<forall>(h, tails) \<in> set fs. h \<notin> set tails)
          \<longrightarrow> (\<forall>a \<in> set (arcs_of g). fst a \<noteq> fst (snd a)))
    \<and> (\<forall>a \<in> set (loops_of g). fst a = fst (snd a))
    \<and> distinct (fix_nodes g) \<and> set (fix_nodes g) = (\<Union>(d, fs) \<in> set g. fst ` set fs)
    \<and> (sat \<rho> m \<longrightarrow>
          vsum \<rho> [Arc d h k. (d, fs) \<leftarrow> g, (h, tails) \<leftarrow> fs, k \<leftarrow> [0..<length tails]]
            = int (length g)
        \<and> vsum \<rho> [Arc d h k. (d, fs) \<leftarrow> g, (h, tails) \<leftarrow> fs, k \<leftarrow> [0..<length tails]]
            + vsum \<rho> [Loop d h. (d, fs) \<leftarrow> g, (h, tails) \<leftarrow> fs, 1 < length fs]
            = int (length (fix_nodes g)))"
proof -
  have "LinEq (map (\<lambda>a. snd (snd a)) (d_arcs (fix_nodes g) (fst ge) (snd ge))) [] 1 \<in> set m"
    if "ge \<in> set g" for ge
    by (rule circuit_mem [OF assms piece_sum_mem [OF that]])
  then have c1: "\<forall>(d, fs) \<in> set g.
            LinEq [Arc d h k. (h, tails) \<leftarrow> fs, k \<leftarrow> [0..<length tails]] [] 1 \<in> set m"
    unfolding d_arcs_vars by (simp add: split_def)
  have c2: "LinEq [Arc d h k. (d, fs) \<leftarrow> g, (h, tails) \<leftarrow> fs, k \<leftarrow> [0..<length tails]] []
            (int (length g)) \<in> set m"
    using circuit_mem [OF assms global_sum_mem] unfolding arcs_of_vars .
  have c3: "Circuit (arcs_of g @ loops_of g) \<in> set m"
    by (rule circuit_mem [OF assms circuit_constr_mem])
  have c4: "\<forall>i j v. (i, j, v) \<in> set (arcs_of g) \<longleftrightarrow>
          (\<exists>(d, fs) \<in> set g. \<exists>(h, tails) \<in> set fs. \<exists>k < length tails.
             i = idx (fix_nodes g) h \<and> j = idx (fix_nodes g) (tails ! k) \<and> v = Arc d h k)"
    by (intro allI arcs_of_iff)
  have c5: "\<forall>i j v. (i, j, v) \<in> set (loops_of g) \<longleftrightarrow>
          (\<exists>(d, fs) \<in> set g. 1 < length fs \<and>
             (\<exists>(h, tails) \<in> set fs.
                i = idx (fix_nodes g) h \<and> j = idx (fix_nodes g) h \<and> v = Loop d h))"
    by (intro allI loops_of_iff)
  have c8: "(\<forall>(d, fs) \<in> set g. \<forall>(h, tails) \<in> set fs. h \<notin> set tails)
          \<longrightarrow> (\<forall>a \<in> set (arcs_of g). fst a \<noteq> fst (snd a))"
    using arcs_no_self_loop [OF assms] by blast
  have c9: "\<forall>a \<in> set (loops_of g). fst a = fst (snd a)"
  proof
    fix a assume "a \<in> set (loops_of g)"
    then obtain ge fe where "ge \<in> set g" "fe \<in> set (snd ge)"
      "a = (idx (fix_nodes g) (fst fe), idx (fix_nodes g) (fst fe), Loop (fst ge) (fst fe))"
      unfolding loops_of_mem d_loops_mem by blast
    then show "fst a = fst (snd a)" by simp
  qed
  have c10: "distinct (fix_nodes g)" by (simp add: fix_nodes_def)
  have c12: "sat \<rho> m \<longrightarrow>
          vsum \<rho> [Arc d h k. (d, fs) \<leftarrow> g, (h, tails) \<leftarrow> fs, k \<leftarrow> [0..<length tails]]
            = int (length g)
        \<and> vsum \<rho> [Arc d h k. (d, fs) \<leftarrow> g, (h, tails) \<leftarrow> fs, k \<leftarrow> [0..<length tails]]
            + vsum \<rho> [Loop d h. (d, fs) \<leftarrow> g, (h, tails) \<leftarrow> fs, 1 < length fs]
            = int (length (fix_nodes g))"
    using circuit_counting_sat [OF assms, of \<rho>] unfolding arcs_of_vars loops_of_vars by blast
  from c1 c2 c3 c4 c5 arcs_of_vars loops_of_vars c8 c9 c10 set_fix_nodes c12
  show ?thesis by (intro conjI)
qed

theorem circuit_counting_witness:
  "solver_setup mirror_graph (grid 3 2)
     = Inr (circuit_constraints mirror_graph @ set_placements mirror_graph (grid 3 2))
   \<and> sat mirror_solution (circuit_constraints mirror_graph @ set_placements mirror_graph (grid 3 2))
   \<and> vsum mirror_solution
         [Arc d h k. (d, fs) \<leftarrow> mirror_graph, (h, tails) \<leftarrow> fs, k \<leftarrow> [0..<length tails]]
       = int (length mirror_graph)
   \<and> vsum mirror_solution
         [Arc d h k. (d, fs) \<leftarrow> mirror_graph, (h, tails) \<leftarrow> fs, k \<leftarrow> [0..<length tails]]
       + vsum mirror_solution [Loop d h. (d, fs) \<leftarrow> mirror_graph, (h, tails) \<leftarrow> fs, 1 < length fs]
       = int (length (fix_nodes mirror_graph))
   \<and> vsum mirror_solution [Loop d h. (d, fs) \<leftarrow> mirror_graph, (h, tails) \<leftarrow> fs, 1 < length fs] = 3
   \<and> length mirror_graph = 3 \<and> length (fix_nodes mirror_graph) = 6"
proof -
  note u = circuit_counting [OF mirror_setup, of mirror_solution, THEN conjunct2, THEN conjunct2,
      THEN conjunct2, THEN conjunct2, THEN conjunct2, THEN conjunct2, THEN conjunct2,
      THEN conjunct2, THEN conjunct2, THEN conjunct2, THEN conjunct2, THEN mp, OF mirror_sat]
  have l: "vsum mirror_solution
      [Loop d h. (d, fs) \<leftarrow> mirror_graph, (h, tails) \<leftarrow> fs, 1 < length fs] = 3"
    "length mirror_graph = 3" "length (fix_nodes mirror_graph) = 6"
    by code_simp+
  from mirror_setup mirror_sat u [THEN conjunct1] u [THEN conjunct2] l show ?thesis
    by (intro conjI)
qed

section \<open>The orientation library\<close>

lemma grid_read:
  assumes "0 \<le> x" "x \<le> bx - lx - 1" "0 \<le> y" "y \<le> by - ly - 1"
  shows "map (\<lambda>x. map (\<lambda>y. (x, y) \<in> set d) [ly..by - 1]) [lx..bx - 1] ! nat x ! nat y
           \<longleftrightarrow> (x + lx, y + ly) \<in> set d"
proof -
  have "nat x < length [lx..bx - 1]" "nat y < length [ly..by - 1]"
    using assms by simp_all
  moreover have "[lx..bx - 1] ! nat x = lx + x" "[ly..by - 1] ! nat y = ly + y"
    using assms by simp_all
  ultimately show ?thesis by (simp add: add.commute)
qed

lemma comprehension_cong:
  "(\<And>x y. x \<in> set xs \<Longrightarrow> y \<in> set ys \<Longrightarrow> P x y = Q x y) \<Longrightarrow>
   [(x, y). x \<leftarrow> xs, y \<leftarrow> ys, P x y] = [(x, y). x \<leftarrow> xs, y \<leftarrow> ys, Q x y]"
  by (intro arg_cong [where f = concat] map_cong refl) simp

lemma normalise_eq: "d \<noteq> [] \<Longrightarrow> normalise_pts d = Inr (origin_form d)"
proof -
  assume "d \<noteq> []"
  let ?lx = "Min (set (map fst d))" and ?bx = "1 + Max (set (map fst d))"
  let ?ly = "Min (set (map snd d))" and ?by = "1 + Max (set (map snd d))"
  let ?grid = "map (\<lambda>x. map (\<lambda>y. (x, y) \<in> set d) [?ly..?by - 1]) [?lx..?bx - 1]"
  have 1: "normalise_pts d
      = Inr [(x, y). x \<leftarrow> [0..?bx - ?lx - 1], y \<leftarrow> [0..?by - ?ly - 1], ?grid ! nat x ! nat y]"
    using \<open>d \<noteq> []\<close> by (simp only: normalise_pts_def Let_def if_False)
  have 2: "[(x, y). x \<leftarrow> [0..?bx - ?lx - 1], y \<leftarrow> [0..?by - ?ly - 1], ?grid ! nat x ! nat y]
      = [(x, y). x \<leftarrow> [0..?bx - ?lx - 1], y \<leftarrow> [0..?by - ?ly - 1], (x + ?lx, y + ?ly) \<in> set d]"
    by (rule comprehension_cong) (rule grid_read, simp_all)
  have 3: "?bx - ?lx - 1 = Max (set (map fst d)) - ?lx" "?by - ?ly - 1 = Max (set (map snd d)) - ?ly"
    by simp_all
  show ?thesis
    apply (simp only: 1 2)
    apply (simp only: 3 origin_form_def)
    done
qed

lemma set_origin_form:
  assumes "d \<noteq> []"
  shows "set (origin_form d)
     = (\<lambda>(x, y). (x - Min (set (map fst d)), y - Min (set (map snd d)))) ` set d"
proof -
  let ?lx = "Min (set (map fst d))" and ?mx = "Max (set (map fst d))"
  let ?ly = "Min (set (map snd d))" and ?my = "Max (set (map snd d))"
  have b: "?lx \<le> fst p" "fst p \<le> ?mx" "?ly \<le> snd p" "snd p \<le> ?my" if "p \<in> set d" for p
    using that by (simp_all)
  have "set (origin_form d) = {(x, y). 0 \<le> x \<and> x \<le> ?mx - ?lx \<and> 0 \<le> y \<and> y \<le> ?my - ?ly
          \<and> (x + ?lx, y + ?ly) \<in> set d}"
    by (auto simp: origin_form_def)
  also have "\<dots> = {(x, y). (x + ?lx, y + ?ly) \<in> set d}"
    using b by force
  also have "\<dots> = (\<lambda>(x, y). (x - ?lx, y - ?ly)) ` set d"
    by (force simp: image_iff)
  finally show ?thesis .
qed

lemma dihedral_eq:
  "dihedral = [\<lambda>(a, b). (a, b), \<lambda>(a, b). (- b, a), \<lambda>(a, b). (- a, - b), \<lambda>(a, b). (b, - a),
               \<lambda>(a, b). (b, a), \<lambda>(a, b). (- a, b), \<lambda>(a, b). (- b, - a), \<lambda>(a, b). (a, - b)]"
proof -
  have "[0..<4] = [0, 1, 2, 3]" by code_simp
  then show ?thesis
    by (simp add: dihedral_def quarter_turn_def fun_eq_iff eval_nat_numeral)
qed

lemma length_dihedral: "length dihedral = 8"
  by (simp add: dihedral_eq)

lemma square_p_dihedral: "square_p pts p = map (dihedral ! (p mod 8)) pts"
proof -
  have "p mod 8 < 8" by simp
  then have "p mod 8 \<in> {0, 1, 2, 3, 4, 5, 6, 7}" by auto
  then show ?thesis
    unfolding square_p_def dihedral_eq by (auto simp: split_def)
qed

lemma set_origin_form_eq: "d \<noteq> [] \<Longrightarrow> set (origin_form d) = to_origin (set d)"
  by (simp add: set_origin_form to_origin_def)

lemma origin_form_Nil: "d \<noteq> [] \<Longrightarrow> origin_form d \<noteq> []"
proof
  assume "d \<noteq> []" "origin_form d = []"
  then have "to_origin (set d) = {}" using set_origin_form_eq [of d] by simp
  with \<open>d \<noteq> []\<close> show False by (simp add: to_origin_def)
qed

lemma Max_shift:
  fixes B :: "int set"
  assumes "finite B" "B \<noteq> {}"
  shows "Max ((\<lambda>x. x - c) ` B) = Max B - c"
  using mono_Max_commute [of "\<lambda>x. x - c" B] assms by (simp add: mono_def)

lemma origin_form_read:
  assumes "d \<noteq> []"
  shows "origin_form d =
     [(x, y). x \<leftarrow> [0..Max (fst ` set (origin_form d))],
              y \<leftarrow> [0..Max (snd ` set (origin_form d))], (x, y) \<in> set (origin_form d)]"
proof -
  let ?lx = "Min (set (map fst d))" and ?ly = "Min (set (map snd d))"
  have s: "set (origin_form d) = (\<lambda>(x, y). (x - ?lx, y - ?ly)) ` set d"
    using assms by (rule set_origin_form)
  have "fst ` set (origin_form d) = (\<lambda>x. x - ?lx) ` set (map fst d)"
    "snd ` set (origin_form d) = (\<lambda>y. y - ?ly) ` set (map snd d)"
    unfolding s by (simp_all add: image_image split_def)
  then have m: "Max (fst ` set (origin_form d)) = Max (set (map fst d)) - ?lx"
    "Max (snd ` set (origin_form d)) = Max (set (map snd d)) - ?ly"
    using assms by (simp_all only: Max_shift [OF finite_set] set_empty map_is_Nil_conv not_False_eq_True)
  have p: "(x, y) \<in> set (origin_form d) \<longleftrightarrow> (x + ?lx, y + ?ly) \<in> set d" for x y
    unfolding s by (force simp: image_iff)
  show ?thesis
    apply (simp only: m p)
    apply (simp only: origin_form_def)
    done
qed

lemma origin_form_canonical:
  assumes "a \<noteq> []" "b \<noteq> []" "set (origin_form a) = set (origin_form b)"
  shows "origin_form a = origin_form b"
  using origin_form_read [OF assms(1)] origin_form_read [OF assms(2)] assms(3) by simp

lemma dict_set_keys: "fst ` set (dict_set r k v) = insert k (fst ` set r)"
  by (induction r k v rule: dict_set.induct) auto

lemma dict_set_sub: "set (dict_set r k v) \<subseteq> insert (k, v) (set r)"
  by (induction r k v rule: dict_set.induct) auto

lemma dict_set_distinct: "distinct (map fst r) \<Longrightarrow> distinct (map fst (dict_set r k v))"
proof (induction r k v rule: dict_set.induct)
  case (2 k' v' kvs k v)
  then show ?case using dict_set_keys [of kvs k v] by (auto simp: image_iff)
qed simp

lemma dict_set_length: "length (dict_set r k v) \<le> Suc (length r)"
  by (induction r k v rule: dict_set.induct) auto

lemma fold_keys:
  "fst ` set (foldl (\<lambda>r v. dict_set r (key v) v) r vs) = fst ` set r \<union> key ` set vs"
  by (induction vs arbitrary: r) (auto simp: dict_set_keys)

lemma fold_sub:
  "set (foldl (\<lambda>r v. dict_set r (key v) v) r vs) \<subseteq> set r \<union> (\<lambda>v. (key v, v)) ` set vs"
proof (induction vs arbitrary: r)
  case (Cons v vs)
  have "set (foldl (\<lambda>r v. dict_set r (key v) v) (dict_set r (key v) v) vs)
      \<subseteq> set (dict_set r (key v) v) \<union> (\<lambda>v. (key v, v)) ` set vs"
    by (rule Cons.IH)
  with dict_set_sub [of r "key v" v] show ?case by auto
qed simp

lemma fold_distinct:
  "distinct (map fst r) \<Longrightarrow> distinct (map fst (foldl (\<lambda>r v. dict_set r (key v) v) r vs))"
  by (induction vs arbitrary: r) (simp_all add: dict_set_distinct)

lemma fold_length:
  "length (foldl (\<lambda>r v. dict_set r (key v) v) r vs) \<le> length r + length vs"
proof (induction vs arbitrary: r)
  case (Cons v vs)
  from Cons.IH [of "dict_set r (key v) v"] dict_set_length [of r "key v" v]
  show ?case by simp
qed simp

lemma fix_loop_fold:
  "base \<noteq> [] \<Longrightarrow>
   fix_loop key base fs r
     = Inr (foldl (\<lambda>r v. dict_set r (key v) v) r (map (\<lambda>f. origin_form (square_p base f)) fs))"
  by (induction fs arbitrary: r) (simp_all add: normalise_eq square_p_def)

lemma fix_shape_eq:
  assumes "pts \<noteq> []"
  shows "fix_shape key pts
     = Inr (map snd (foldl (\<lambda>r v. dict_set r (key v) v) [] (images (origin_form pts))))"
  using assms origin_form_Nil [OF assms]
  by (simp add: fix_shape_def normalise_eq fix_loop_fold images_def)

lemma image_point_set:
  assumes "base \<noteq> []" "f < 8"
  shows "set (origin_form (square_p base f)) = to_origin ((dihedral ! f) ` set base)"
    and "normalise_pts (map (dihedral ! f) base) = Inr (origin_form (square_p base f))"
  using assms by (simp_all add: square_p_dihedral set_origin_form_eq normalise_eq)

lemma dihedral_nth: "g \<in> set dihedral \<longleftrightarrow> (\<exists>f<8. g = dihedral ! f)"
  using length_dihedral by (metis in_set_conv_nth)

lemma fixes_of_piece:
  assumes "(d, fs) \<in> set (DominoDigraph sz)"
  shows "map fst fs = (if fst d = snd d then [d] else [d, (snd d, fst d)])"
proof -
  from assms obtain d_fixes where f: "(d, d_fixes) \<in> set (fixed sz)"
    and fs: "fs = map (\<lambda>d_fix. (d_fix, tails_of (fixed sz) d d_fix)) d_fixes"
    unfolding graph_mem by blast
  obtain x y where d: "d = (x, y)" by (cases d)
  from f have "d_fixes = (if x = y then [(x, y)] else [(x, y), (y, x)])"
    unfolding d fixed_mem by simp
  moreover have "map fst fs = d_fixes" unfolding fs by (simp add: comp_def)
  ultimately show ?thesis by (simp add: d)
qed

text \<open>
  C8. For every non-empty list of points and every key function (standing for Python's
  \<open>hash\<close> of the string of an orientation), \<open>_normalise_pts_\<close> and the loop of
  \<open>ShapeCollection.fix\<close> return: the base is the point-set moved to the origin; every stored
  orientation is the normalised image of the base under an element of the symmetry group
  of the square; at most eight and at least one are stored; no two stored orientations
  have the same key, and no two are equal as point-sets (minimal); and when the key
  separates the normalised images, every one of the eight group images is stored
  (exhaustive). For the dominoes, whose fixes \<open>DominoDigraph\<close> builds itself from the set
  \<open>{(a, b), (b, a)}\<close>, a double has exactly its one fix and any other piece exactly the two.
\<close>

theorem orientation_canonical:
  assumes "pts \<noteq> []"
  shows "\<exists>base os.
      normalise_pts pts = Inr base \<and> fix_shape key pts = Inr os
    \<and> set base = to_origin (set pts)
    \<and> os \<noteq> [] \<and> length os \<le> 8
    \<and> (\<forall>od \<in> set os. \<exists>g \<in> set dihedral.
          normalise_pts (map g base) = Inr od \<and> set od = to_origin (g ` set base))
    \<and> distinct (map key os) \<and> distinct (map set os)
    \<and> (inj_on key {od. \<exists>g \<in> set dihedral. normalise_pts (map g base) = Inr od} \<longrightarrow>
         (\<forall>g \<in> set dihedral. \<exists>od \<in> set os.
            normalise_pts (map g base) = Inr od \<and> set od = to_origin (g ` set base)))
    \<and> (\<forall>(d, fs) \<in> set (DominoDigraph sz).
         map fst fs = (if fst d = snd d then [d] else [d, (snd d, fst d)]))"
proof -
  define base where "base = origin_form pts"
  define img where "img f = origin_form (square_p base f)" for f
  define restrict where "restrict = foldl (\<lambda>r v. dict_set r (key v) v) [] (images base)"
  define os where "os = map snd restrict"
  have b: "base \<noteq> []" unfolding base_def using assms by (rule origin_form_Nil)
  have n: "normalise_pts pts = Inr base" unfolding base_def using assms by (rule normalise_eq)
  have fs: "fix_shape key pts = Inr os"
    unfolding os_def restrict_def base_def using assms by (rule fix_shape_eq)
  have sb: "set base = to_origin (set pts)"
    unfolding base_def using assms by (rule set_origin_form_eq)
  have im: "set (images base) = img ` {..<8}"
    unfolding images_def img_def by (auto simp: lessThan_atLeast0)
  have ip: "set (img f) = to_origin ((dihedral ! f) ` set base)"
    "normalise_pts (map (dihedral ! f) base) = Inr (img f)" if "f < 8" for f
    unfolding img_def using image_point_set [OF b that] by simp_all
  have sub: "set restrict \<subseteq> (\<lambda>v. (key v, v)) ` img ` {..<8}"
    unfolding restrict_def using fold_sub [of key "[]" "images base"] by (simp add: im)
  have keys: "fst ` set restrict = key ` img ` {..<8}"
    unfolding restrict_def using fold_keys [of key "[]" "images base"] by (simp add: im)
  have dk: "distinct (map fst restrict)"
    unfolding restrict_def by (rule fold_distinct) simp
  have len: "length restrict \<le> 8"
    unfolding restrict_def using fold_length [of key "[]" "images base"]
    by (simp add: images_def)
  have mem: "\<exists>f<8. od = img f" if "od \<in> set os" for od
  proof -
    from that obtain k where "(k, od) \<in> set restrict" unfolding os_def by auto
    with sub show ?thesis by auto
  qed
  have fk: "map fst restrict = map key os"
  proof -
    have "fst e = key (snd e)" if "e \<in> set restrict" for e
      using that sub by auto
    then show ?thesis unfolding os_def by (simp add: comp_def)
  qed
  have d1: "distinct (map key os)" using dk unfolding fk .
  then have d0: "distinct os" by (simp add: distinct_map)
  have "inj_on set (set os)"
  proof (rule inj_onI)
    fix x y assume "x \<in> set os" "y \<in> set os" "set x = set y"
    then obtain f f' where xy: "x = img f" "y = img f'" using mem by blast
    have "square_p base f \<noteq> []" "square_p base f' \<noteq> []"
      using b by (simp_all add: square_p_def)
    moreover have "set (origin_form (square_p base f)) = set (origin_form (square_p base f'))"
      using \<open>set x = set y\<close> unfolding xy img_def .
    ultimately have "origin_form (square_p base f) = origin_form (square_p base f')"
      by (rule origin_form_canonical)
    then show "x = y" unfolding xy img_def .
  qed
  with d0 have d2: "distinct (map set os)" by (simp add: distinct_map)
  have ne: "os \<noteq> []"
  proof
    assume "os = []"
    then have "fst ` set restrict = {}" unfolding os_def by simp
    moreover have "key (img 0) \<in> key ` img ` {..<8}" by (intro imageI) simp
    ultimately show False unfolding keys by simp
  qed
  have sound: "\<forall>od \<in> set os. \<exists>g \<in> set dihedral.
          normalise_pts (map g base) = Inr od \<and> set od = to_origin (g ` set base)"
  proof
    fix od assume "od \<in> set os"
    then obtain f where f: "f < 8" "od = img f" using mem by blast
    then have "dihedral ! f \<in> set dihedral" using length_dihedral by simp
    with ip [OF f(1)] f(2) show "\<exists>g \<in> set dihedral.
          normalise_pts (map g base) = Inr od \<and> set od = to_origin (g ` set base)"
      by blast
  qed
  have exh: "\<forall>g \<in> set dihedral. \<exists>od \<in> set os.
            normalise_pts (map g base) = Inr od \<and> set od = to_origin (g ` set base)"
    if inj: "inj_on key {od. \<exists>g \<in> set dihedral. normalise_pts (map g base) = Inr od}"
  proof
    fix g assume "g \<in> set dihedral"
    then obtain f where f: "f < 8" "g = dihedral ! f" unfolding dihedral_nth by blast
    have "key (img f) \<in> fst ` set restrict" unfolding keys using f(1) by blast
    then obtain od where od: "od \<in> set os" "key od = key (img f)"
      unfolding fk [symmetric, THEN arg_cong [where f = set], simplified] os_def
      using sub by force
    from od(1) obtain f' where f': "f' < 8" "od = img f'" using mem by blast
    have "img f \<in> {od. \<exists>g \<in> set dihedral. normalise_pts (map g base) = Inr od}"
      using ip(2) [OF f(1)] \<open>g \<in> set dihedral\<close> f(2) by blast
    moreover have "od \<in> {od. \<exists>g \<in> set dihedral. normalise_pts (map g base) = Inr od}"
      using ip(2) [OF f'(1)] f' length_dihedral by (metis (mono_tags, lifting) mem_Collect_eq nth_mem)
    ultimately have "od = img f" using inj od(2) by (meson inj_onD)
    with od(1) ip [OF f(1)] f(2) show "\<exists>od \<in> set os.
            normalise_pts (map g base) = Inr od \<and> set od = to_origin (g ` set base)"
      by blast
  qed
  have dom: "\<forall>(d, fs) \<in> set (DominoDigraph sz).
         map fst fs = (if fst d = snd d then [d] else [d, (snd d, fst d)])"
    using fixes_of_piece by blast
  from len have len': "length os \<le> 8" unfolding os_def by simp
  show ?thesis
    apply (rule exI [of _ base], rule exI [of _ os])
    apply (intro conjI impI)
    apply (rule n, rule fs, rule sb, rule ne, rule len', rule sound, rule d1, rule d2)
    apply (erule exh)
    apply (rule dom)
    done
qed

lemma quarter_turn_dihedral: "quarter_turn \<in> set dihedral"
  by (simp add: dihedral_eq quarter_turn_def fun_eq_iff)

text \<open>
  The \<open>T\<close> pentomino with the identity as key: its eight images fall into four
  orientations, among them the quarter turn of the base; and the pieces \<open>[1:0]\<close> and
  \<open>[1:1]\<close> of the graph of size 1.
\<close>

theorem orientation_canonical_witness:
  "pentomino_T \<noteq> []
   \<and> normalise_pts pentomino_T = Inr [(0, 2), (1, 0), (1, 1), (1, 2), (2, 2)]
   \<and> fix_shape (\<lambda>od. od) pentomino_T
       = Inr [[(0, 2), (1, 0), (1, 1), (1, 2), (2, 2)], [(0, 0), (0, 1), (0, 2), (1, 1), (2, 1)],
              [(0, 0), (1, 0), (1, 1), (1, 2), (2, 0)], [(0, 1), (1, 1), (2, 0), (2, 1), (2, 2)]]
   \<and> set [(0, 2), (1, 0), (1, 1), (1, 2), (2, 2)] = to_origin (set pentomino_T)
   \<and> distinct (map set
        ([[(0, 2), (1, 0), (1, 1), (1, 2), (2, 2)], [(0, 0), (0, 1), (0, 2), (1, 1), (2, 1)],
          [(0, 0), (1, 0), (1, 1), (1, 2), (2, 0)], [(0, 1), (1, 1), (2, 0), (2, 1), (2, 2)]]
         :: point list list))
   \<and> (\<exists>od. od \<in> set
        [[(0, 2), (1, 0), (1, 1), (1, 2), (2, 2)], [(0, 0), (0, 1), (0, 2), (1, 1), (2, 1)],
         [(0, 0), (1, 0), (1, 1), (1, 2), (2, 0)], [(0, 1), (1, 1), (2, 0), (2, 1), (2, 2)]]
      \<and> normalise_pts (map quarter_turn [(0, 2), (1, 0), (1, 1), (1, 2), (2, 2)]) = Inr od
      \<and> set od = to_origin (quarter_turn ` set [(0, 2), (1, 0), (1, 1), (1, 2), (2, 2)]))
   \<and> ((1, 0), [((1, 0), [(0, 0)]), ((0, 1), [(1, 1)])]) \<in> set (DominoDigraph 1)
   \<and> map fst [((1::int, 0::int), [(0::int, 0::int)]), ((0, 1), [(1, 1)])] = [(1, 0), (0, 1)]
   \<and> ((1, 1), [((1, 1), [(1, 0)])]) \<in> set (DominoDigraph 1)
   \<and> map fst [((1::int, 1::int), [(1::int, 0::int)])] = [(1, 1)]"
proof -
  let ?B = "[(0, 2), (1, 0), (1, 1), (1, 2), (2, 2)] :: point list"
  let ?L = "[[(0, 2), (1, 0), (1, 1), (1, 2), (2, 2)], [(0, 0), (0, 1), (0, 2), (1, 1), (2, 1)],
             [(0, 0), (1, 0), (1, 1), (1, 2), (2, 0)], [(0, 1), (1, 1), (2, 0), (2, 1), (2, 2)]]
             :: point list list"
  have ne: "pentomino_T \<noteq> []" by (simp add: pentomino_T_def)
  have nB: "normalise_pts pentomino_T = Inr ?B" by code_simp
  have fL: "fix_shape (\<lambda>od. od) pentomino_T = Inr ?L" by code_simp
  have g1: "((1, 0), [((1, 0), [(0, 0)]), ((0, 1), [(1, 1)])]) \<in> set (DominoDigraph 1)"
    and g2: "((1, 1), [((1, 1), [(1, 0)])]) \<in> set (DominoDigraph 1)"
    by (simp_all add: DominoDigraph_1)
  from orientation_canonical [OF ne, of "\<lambda>od. od" 1] obtain base os where
    c: "normalise_pts pentomino_T = Inr base" "fix_shape (\<lambda>od. od) pentomino_T = Inr os"
      "set base = to_origin (set pentomino_T)" "distinct (map set os)"
      "inj_on (\<lambda>od. od) {od. \<exists>g \<in> set dihedral. normalise_pts (map g base) = Inr od} \<longrightarrow>
         (\<forall>g \<in> set dihedral. \<exists>od \<in> set os.
            normalise_pts (map g base) = Inr od \<and> set od = to_origin (g ` set base))"
      "\<forall>(d, fs) \<in> set (DominoDigraph 1).
         map fst fs = (if fst d = snd d then [d] else [d, (snd d, fst d)])"
    by blast
  from c(1) nB have base: "base = ?B" by simp
  from c(2) fL have os: "os = ?L" by simp
  from c(5) have a: "\<forall>g \<in> set dihedral. \<exists>od \<in> set os.
            normalise_pts (map g base) = Inr od \<and> set od = to_origin (g ` set base)"
    by simp
  from bspec [OF a quarter_turn_dihedral] have "\<exists>od \<in> set os.
      normalise_pts (map quarter_turn base) = Inr od \<and> set od = to_origin (quarter_turn ` set base)"
    .
  then have e: "\<exists>od. od \<in> set ?L
      \<and> normalise_pts (map quarter_turn ?B) = Inr od
      \<and> set od = to_origin (quarter_turn ` set ?B)"
    unfolding base os by blast
  from c(6) g1 have d1: "map fst [((1::int, 0::int), [(0::int, 0::int)]), ((0, 1), [(1, 1)])] = [(1, 0), (0, 1)]"
    by simp
  from c(6) g2 have d2: "map fst [((1::int, 1::int), [(1::int, 0::int)])] = [(1, 1)]"
    by simp
  from ne nB fL c(3) [unfolded base] c(4) [unfolded os] e g1 d1 g2 d2 show ?thesis
    by (intro conjI)
qed

text \<open>
  The empty list of points is a finite point-set on which the library does not return:
  \<open>min\<close> of an empty sequence raises \<open>ValueError\<close> in \<open>_normalise_pts_\<close>.
\<close>

theorem orientation_empty_counterexample:
  "normalise_pts [] = Inl ValueError \<and> fix_shape (\<lambda>od. od) [] = Inl ValueError"
  by (simp add: fix_shape_def normalise_pts_def)

text \<open>
  Without a key that separates the images the stored orientations are not exhaustive: under
  a constant key only the last image is kept.
\<close>

lemma colliding_key_drops_orientations:
  "fix_shape (\<lambda>od. 0 :: nat) pentomino_T = Inr [[(0, 0), (1, 0), (1, 1), (1, 2), (2, 0)]]"
  by code_simp

end
